theory Spec2Isabelle
  imports Complex_Main
begin

section \<open>Python floats\<close>

text \<open>
  A Python float (and a float32 sample) is a dyadic rational \<open>m * 2 ^ e\<close>, an infinity or
  NaN. \<open>float_gt a b\<close> is the comparison \<^verbatim>\<open>a > b\<close> and \<open>float_le a b\<close> is \<^verbatim>\<open>a <= b\<close>;
  both are false when an operand is NaN.
\<close>

datatype pyfloat = Finite int int | PosInf | NegInf | NaN

definition float_gt :: "pyfloat \<Rightarrow> pyfloat \<Rightarrow> bool" where
  "float_gt a b =
     (case a of
        Finite m1 e1 \<Rightarrow>
          (case b of
             Finite m2 e2 \<Rightarrow> m2 * 2 ^ nat (e2 - min e1 e2) < m1 * 2 ^ nat (e1 - min e1 e2)
           | PosInf \<Rightarrow> False
           | NegInf \<Rightarrow> True
           | NaN \<Rightarrow> False)
      | PosInf \<Rightarrow>
          (case b of
             Finite m2 e2 \<Rightarrow> True
           | PosInf \<Rightarrow> False
           | NegInf \<Rightarrow> True
           | NaN \<Rightarrow> False)
      | NegInf \<Rightarrow> False
      | NaN \<Rightarrow> False)"

definition float_le :: "pyfloat \<Rightarrow> pyfloat \<Rightarrow> bool" where
  "float_le a b =
     (case a of
        Finite m1 e1 \<Rightarrow>
          (case b of
             Finite m2 e2 \<Rightarrow> m1 * 2 ^ nat (e1 - min e1 e2) \<le> m2 * 2 ^ nat (e2 - min e1 e2)
           | PosInf \<Rightarrow> True
           | NegInf \<Rightarrow> False
           | NaN \<Rightarrow> False)
      | PosInf \<Rightarrow>
          (case b of
             Finite m2 e2 \<Rightarrow> False
           | PosInf \<Rightarrow> True
           | NegInf \<Rightarrow> False
           | NaN \<Rightarrow> False)
      | NegInf \<Rightarrow>
          (case b of
             Finite m2 e2 \<Rightarrow> True
           | PosInf \<Rightarrow> True
           | NegInf \<Rightarrow> True
           | NaN \<Rightarrow> False)
      | NaN \<Rightarrow> False)"

section \<open>voice.py: the capture callback (voice-activity detection)\<close>

text \<open>
  One callback receives one block: \<open>chunk\<close> is the column \<^verbatim>\<open>indata[:, 0].copy()\<close>, a list of
  float32 samples, and \<open>level\<close> is the float that \<^verbatim>\<open>rms(chunk)\<close> returns for it.
  \<^verbatim>\<open>rms\<close> is \<^verbatim>\<open>float(np.sqrt(np.mean(audio ** 2)))\<close>, numpy's float32 arithmetic; its
  result is taken as given with the block and can be any float, NaN included.
\<close>

type_synonym audio = "pyfloat list"

record block =
  chunk :: audio
  level :: pyfloat

definition SAMPLE_RATE :: nat where
  "SAMPLE_RATE = 16000"

definition BLOCK_DURATION :: real where
  "BLOCK_DURATION = 0.5"

text \<open>The float written \<^verbatim>\<open>0.01\<close>: \<open>5764607523034235 / 2 ^ 59\<close>.\<close>

definition SILENCE_THRESHOLD :: pyfloat where
  "SILENCE_THRESHOLD = Finite 5764607523034235 (- 59)"

definition SILENCE_TIMEOUT :: real where
  "SILENCE_TIMEOUT = 1.5"

definition MIN_SPEECH_DURATION :: real where
  "MIN_SPEECH_DURATION = 0.5"

text \<open>
  \<^verbatim>\<open>int(SAMPLE_RATE * BLOCK_DURATION)\<close> and \<^verbatim>\<open>int(SILENCE_TIMEOUT / BLOCK_DURATION)\<close>:
  \<^verbatim>\<open>int\<close> truncates, which is the floor on these non-negative values.
\<close>

definition block_size :: nat where
  "block_size = nat \<lfloor>real SAMPLE_RATE * BLOCK_DURATION\<rfloor>"

definition silence_blocks :: nat where
  "silence_blocks = nat \<lfloor>SILENCE_TIMEOUT / BLOCK_DURATION\<rfloor>"

text \<open>
  The fields of a \<^verbatim>\<open>VoiceListener\<close>. The queue is the FIFO \<^verbatim>\<open>queue.Queue()\<close>;
  \<open>None\<close> in it is the sentinel that \<^verbatim>\<open>stop\<close> puts. \<open>thread_pairs\<close> counts the
  capture/worker thread pairs that \<^verbatim>\<open>start\<close> has created and started.
\<close>

record voice_listener =
  running :: bool
  audio_buffer :: "audio list"
  silent_count :: nat
  is_speaking :: bool
  queue :: "audio option list"
  thread_pairs :: nat

definition init_listener :: voice_listener where
  "init_listener = \<lparr>running = False, audio_buffer = [], silent_count = 0,
     is_speaking = False, queue = [], thread_pairs = 0\<rparr>"

definition start :: "voice_listener \<Rightarrow> voice_listener" where
  "start self =
     (if running self then self
      else self\<lparr>running := True, thread_pairs := thread_pairs self + 1\<rparr>)"

definition stop :: "voice_listener \<Rightarrow> voice_listener" where
  "stop self = (self\<lparr>running := False\<rparr>)\<lparr>queue := queue self @ [None]\<rparr>"

datatype cb_signal = CallbackAbort

text \<open>
  \<^verbatim>\<open>audio_cb\<close>, one call per block. The callback raises \<^verbatim>\<open>CallbackAbort\<close> when the
  listener is not running; otherwise it returns the updated listener.
\<close>

definition audio_cb :: "voice_listener \<Rightarrow> block \<Rightarrow> cb_signal + voice_listener" where
  "audio_cb self indata =
     (if \<not> running self then Inl CallbackAbort
      else
        if float_gt (level indata) SILENCE_THRESHOLD then
          let self1 = (if \<not> is_speaking self
                       then self\<lparr>is_speaking := True, silent_count := 0\<rparr>
                       else self)
          in Inr (self1\<lparr>audio_buffer := audio_buffer self1 @ [chunk indata],
                         silent_count := 0\<rparr>)
        else if is_speaking self then
          let self1 = self\<lparr>audio_buffer := audio_buffer self @ [chunk indata],
                            silent_count := silent_count self + 1\<rparr>
          in
          if silent_count self1 \<ge> silence_blocks then
            let full_audio = concat (audio_buffer self1);
                duration = real (length full_audio) / real SAMPLE_RATE;
                self2 = self1\<lparr>audio_buffer := [], silent_count := 0, is_speaking := False\<rparr>
            in
            if duration \<ge> MIN_SPEECH_DURATION
            then Inr (self2\<lparr>queue := queue self2 @ [Some full_audio]\<rparr>)
            else Inr self2
          else Inr self1
        else Inr self)"

text \<open>
  The input stream calls \<^verbatim>\<open>audio_cb\<close> on each block in turn, until the callback
  aborts.
\<close>

fun listen_loop :: "voice_listener \<Rightarrow> block list \<Rightarrow> voice_listener" where
  "listen_loop self [] = self"
| "listen_loop self (c # cs) =
     (case audio_cb self c of
        Inl _ \<Rightarrow> self
      | Inr self' \<Rightarrow> listen_loop self' cs)"

text \<open>A listener right after \<^verbatim>\<open>VoiceListener(...)\<close> and \<^verbatim>\<open>start()\<close>.\<close>

definition started :: voice_listener where
  "started = start init_listener"

text \<open>The callback's classification of a block (\<^verbatim>\<open>level > SILENCE_THRESHOLD\<close>) and the
  length of the trailing run of blocks classified silent.\<close>

definition is_speech :: "block \<Rightarrow> bool" where
  "is_speech b \<longleftrightarrow> float_gt (level b) SILENCE_THRESHOLD"

definition trailing_silent :: "block list \<Rightarrow> nat" where
  "trailing_silent bs = length (takeWhile (\<lambda>c. \<not> is_speech c) (rev bs))"

definition duration_of :: "audio \<Rightarrow> real" where
  "duration_of full_audio = real (length full_audio) / real SAMPLE_RATE"

text \<open>
  The invariant of the capture state after the blocks \<open>bs\<close>: while speaking, the buffer holds
  the chunks of the stretch of \<open>bs\<close> from the onset block on, that stretch ends in
  \<open>silent_count\<close> silent blocks after a speech block, and the count is below the bound; while
  idle the buffer is empty. Everything in the queue is an utterance of at least the minimum
  duration.
\<close>

definition vad_inv :: "block list \<Rightarrow> voice_listener \<Rightarrow> bool" where
  "vad_inv bs s \<longleftrightarrow>
     running s \<and>
     (if is_speaking s
      then silent_count s = trailing_silent bs \<and> silent_count s < silence_blocks \<and>
           (\<exists>h pre sil. bs = h @ pre @ sil \<and> audio_buffer s = map chunk (pre @ sil) \<and>
              pre \<noteq> [] \<and> is_speech (hd pre) \<and> is_speech (last pre) \<and>
              (\<forall>c \<in> set sil. \<not> is_speech c) \<and> length sil = silent_count s)
      else audio_buffer s = [] \<and> silent_count s = 0) \<and>
     (\<forall>u \<in> set (queue s). \<exists>a. u = Some a \<and> duration_of a \<ge> MIN_SPEECH_DURATION)"

section \<open>Python strings\<close>

text \<open>
  A Python \<^verbatim>\<open>str\<close> is modelled as a list of code points below 256, one \<open>char\<close> each.
  \<^verbatim>\<open>str.strip()\<close> removes leading and trailing white space; below 256 the white space
  code points are 9..13, 28..32, 133 and 160.
\<close>

definition py_isspace :: "char \<Rightarrow> bool" where
  "py_isspace c =
     (let n = (of_char c :: nat)
      in (9 \<le> n \<and> n \<le> 13) \<or> (28 \<le> n \<and> n \<le> 32) \<or> n = 133 \<or> n = 160)"

definition strip :: "string \<Rightarrow> string" where
  "strip s = rev (dropWhile py_isspace (rev (dropWhile py_isspace s)))"

definition startswith :: "string \<Rightarrow> string \<Rightarrow> bool" where
  "startswith s p = (take (length p) s = p)"

text \<open>\<^verbatim>\<open>needle in s\<close>\<close>

fun is_substring :: "string \<Rightarrow> string \<Rightarrow> bool" where
  "is_substring needle [] = (needle = [])"
| "is_substring needle (c # cs) = (startswith (c # cs) needle \<or> is_substring needle cs)"

section \<open>voice.py: the transcription worker\<close>

text \<open>
  The speech-to-text engine is a parameter: \<open>engine audio\<close> is the text of
  \<^verbatim>\<open>model.transcribe(...)["text"]\<close>, or \<open>None\<close> when the call raises.
\<close>

definition transcribe_audio :: "(audio \<Rightarrow> string option) \<Rightarrow> audio \<Rightarrow> string option" where
  "transcribe_audio engine audio = map_option strip (engine audio)"

text \<open>
  The worker thread runs \<^verbatim>\<open>_transcribe_loop\<close>. Its control points: at the loop's test
  of \<^verbatim>\<open>self._running\<close>, at the blocking \<^verbatim>\<open>self._queue.get()\<close>, inside the body with
  a received utterance, and after the loop. \<open>shared\<close> is the listener object the thread
  shares with the session and the capture thread; \<open>transcribed\<close> logs the utterances given
  to \<^verbatim>\<open>transcribe_audio\<close> and \<open>heard\<close> the texts that pass the filter and go to
  \<^verbatim>\<open>on_transcription\<close>.
\<close>

datatype worker_pc = AtLoopHead | AtGet | Transcribing audio | Exited

record worker =
  shared :: voice_listener
  pc :: worker_pc
  transcribed :: "audio list"
  heard :: "string list"

text \<open>One step of the worker thread; \<open>None\<close> when it cannot move (blocked in \<^verbatim>\<open>get\<close> on an
  empty queue, or exited).\<close>

definition worker_step :: "(audio \<Rightarrow> string option) \<Rightarrow> worker \<Rightarrow> worker option" where
  "worker_step engine w =
     (case pc w of
        AtLoopHead \<Rightarrow>
          (if running (shared w) then Some (w\<lparr>pc := AtGet\<rparr>) else Some (w\<lparr>pc := Exited\<rparr>))
      | AtGet \<Rightarrow>
          (case queue (shared w) of
             [] \<Rightarrow> None
           | item # rest \<Rightarrow>
               (case item of
                  None \<Rightarrow> Some (w\<lparr>shared := (shared w)\<lparr>queue := rest\<rparr>, pc := Exited\<rparr>)
                | Some audio \<Rightarrow>
                    Some (w\<lparr>shared := (shared w)\<lparr>queue := rest\<rparr>, pc := Transcribing audio\<rparr>)))
      | Transcribing audio \<Rightarrow>
          (let w1 = w\<lparr>transcribed := transcribed w @ [audio]\<rparr>
           in case transcribe_audio engine audio of
                None \<Rightarrow> Some (w1\<lparr>pc := AtLoopHead\<rparr>)
              | Some text \<Rightarrow>
                  if text \<noteq> [] \<and> \<not> startswith text ''[''
                  then Some (w1\<lparr>heard := heard w1 @ [text], pc := AtLoopHead\<rparr>)
                  else Some (w1\<lparr>pc := AtLoopHead\<rparr>))
      | Exited \<Rightarrow> None)"

text \<open>The worker thread running on its own for at most \<open>n\<close> steps.\<close>

fun transcribe_loop :: "(audio \<Rightarrow> string option) \<Rightarrow> nat \<Rightarrow> worker \<Rightarrow> worker" where
  "transcribe_loop engine 0 w = w"
| "transcribe_loop engine (Suc n) w =
     (case worker_step engine w of
        None \<Rightarrow> w
      | Some w' \<Rightarrow> transcribe_loop engine n w')"

text \<open>The session thread calls \<^verbatim>\<open>stop()\<close> on the shared listener.\<close>

definition stop_shared :: "worker \<Rightarrow> worker" where
  "stop_shared w = w\<lparr>shared := stop (shared w)\<rparr>"

section \<open>main.py: JSON values and exceptions\<close>

text \<open>
  JSON values are what \<^verbatim>\<open>json.loads\<close> returns; an object is the association list of its
  dict, read with \<open>map_of\<close>.
\<close>

datatype json =
    JNull
  | JBool bool
  | JInt int
  | JFloat pyfloat
  | JStr string
  | JArr "json list"
  | JObj "(string \<times> json) list"

datatype exc_class =
    TimeoutError
  | JSONDecodeError
  | ValueError
  | TypeError
  | OverflowError
  | AttributeError
  | OtherException

text \<open>An exception object: its class and \<^verbatim>\<open>str(e)\<close>. All classes here derive from
  \<^verbatim>\<open>Exception\<close>.\<close>

record py_exc =
  cls :: exc_class
  descr :: string

text \<open>\<^verbatim>\<open>data.get(key, default)\<close> on a dict.\<close>

definition dict_get :: "(string \<times> json) list \<Rightarrow> string \<Rightarrow> json \<Rightarrow> json" where
  "dict_get d key dflt = (case map_of d key of None \<Rightarrow> dflt | Some v \<Rightarrow> v)"

text \<open>Truth value of a JSON value, as \<^verbatim>\<open>if not user_message\<close> tests it.\<close>

fun truthy :: "json \<Rightarrow> bool" where
  "truthy JNull = False"
| "truthy (JBool b) = b"
| "truthy (JInt n) = (n \<noteq> 0)"
| "truthy (JFloat (Finite m e)) = (m \<noteq> 0)"
| "truthy (JFloat f) = True"
| "truthy (JStr s) = (s \<noteq> [])"
| "truthy (JArr xs) = (xs \<noteq> [])"
| "truthy (JObj kvs) = (kvs \<noteq> [])"

text \<open>
  \<^verbatim>\<open>int(x)\<close>. On a string: leading and trailing white space is skipped, which for
  \<^verbatim>\<open>int\<close> is the code points 9..13, 32, 133 and 160 (not 28..31, which \<^verbatim>\<open>str.strip\<close>
  removes); one sign is allowed; then come decimal digits with single underscores between
  digits, at most \<^verbatim>\<open>sys.int_max_str_digits\<close> of them (4300 by default, underscores not
  counted). Anything else raises \<^verbatim>\<open>ValueError\<close>. On a float: truncation towards zero.
\<close>

definition int_isspace :: "char \<Rightarrow> bool" where
  "int_isspace c =
     (let n = (of_char c :: nat)
      in (9 \<le> n \<and> n \<le> 13) \<or> n = 32 \<or> n = 133 \<or> n = 160)"

definition int_max_str_digits :: nat where
  "int_max_str_digits = 4300"

definition is_digit :: "char \<Rightarrow> bool" where
  "is_digit c = (let n = (of_char c :: nat) in 48 \<le> n \<and> n \<le> 57)"

fun digits_ok :: "string \<Rightarrow> bool" where
  "digits_ok [] = False"
| "digits_ok [c] = is_digit c"
| "digits_ok (c # d # cs) =
     (if is_digit c then
        (if d = CHR ''_'' then digits_ok cs else digits_ok (d # cs))
      else False)"

definition digits_value :: "string \<Rightarrow> int" where
  "digits_value ds =
     foldl (\<lambda>acc c. 10 * acc + (int (of_char c) - 48)) 0 (filter (\<lambda>c. c \<noteq> CHR ''_'') ds)"

definition int_of_str :: "string \<Rightarrow> exc_class + int" where
  "int_of_str s =
     (let t = rev (dropWhile int_isspace (rev (dropWhile int_isspace s)));
          neg = (t \<noteq> [] \<and> hd t = CHR ''-'');
          ds = (if t \<noteq> [] \<and> (hd t = CHR ''-'' \<or> hd t = CHR ''+'') then tl t else t)
      in if digits_ok ds \<and> length (filter is_digit ds) \<le> int_max_str_digits
         then Inr (if neg then - digits_value ds else digits_value ds)
         else Inl ValueError)"

fun py_int :: "json \<Rightarrow> exc_class + int" where
  "py_int (JInt n) = Inr n"
| "py_int (JBool b) = Inr (if b then 1 else 0)"
| "py_int (JFloat (Finite m e)) =
     Inr (if 0 \<le> e then m * 2 ^ nat e else sgn m * (\<bar>m\<bar> div 2 ^ nat (- e)))"
| "py_int (JFloat NaN) = Inl ValueError"
| "py_int (JFloat f) = Inl OverflowError"
| "py_int (JStr s) = int_of_str s"
| "py_int v = Inl TypeError"

section \<open>main.py: command dispatch\<close>

text \<open>
  The agent is a parameter. One call \<^verbatim>\<open>await agent.run(user_message, deps=deps)\<close> either
  returns a result whose \<^verbatim>\<open>output\<close> is a string or \<^verbatim>\<open>None\<close>, or raises an exception, or
  is cancelled because the 30 s wait of \<^verbatim>\<open>asyncio.wait_for\<close> around the dispatch ran out
  while it was pending (the cancellation is not an \<^verbatim>\<open>Exception\<close>, so no handler of the
  dispatch catches it).
\<close>

datatype attempt = Returns "string option" | Raises py_exc | Cancelled

datatype run_result = Done string | Failed py_exc | TimedOut

definition max_attempts :: nat where
  "max_attempts = 3"

text \<open>\<^verbatim>\<open>result.output is None or result.output.strip() == ""\<close>\<close>

fun is_blank :: "string option \<Rightarrow> bool" where
  "is_blank None = True"
| "is_blank (Some output) = (strip output = [])"

text \<open>\<^verbatim>\<open>"invalid_request_error" in err_str or "nil" in err_str\<close>\<close>

definition transient :: "py_exc \<Rightarrow> bool" where
  "transient e =
     (is_substring ''invalid_request_error'' (descr e) \<or> is_substring ''nil'' (descr e))"

text \<open>
  \<^verbatim>\<open>_run_agent_non_stream\<close>: the loop \<^verbatim>\<open>for attempt in range(max_attempts)\<close>, with
  \<open>left\<close> the iterations still to run; \<open>run attempt\<close> is the outcome of the call made in
  iteration \<open>attempt\<close>. The result comes with the number of calls made.
\<close>

fun attempt_loop :: "(nat \<Rightarrow> attempt) \<Rightarrow> nat \<Rightarrow> nat \<Rightarrow> nat \<times> run_result" where
  "attempt_loop run attempt 0 =
     (attempt, Done ''Sorry, I couldn't generate a response after multiple attempts.'')"
| "attempt_loop run attempt (Suc left) =
     (case run attempt of
        Returns output \<Rightarrow>
          if is_blank output then
            (if attempt < max_attempts - 1 then attempt_loop run (attempt + 1) left
             else (attempt + 1, Done ''Sorry, I couldn't generate a response. Please try again.''))
          else (attempt + 1, Done (the output))
      | Raises e \<Rightarrow>
          if transient e then
            (if attempt < max_attempts - 1 then attempt_loop run (attempt + 1) left
             else (attempt + 1, Failed e))
          else (attempt + 1, Failed e)
      | Cancelled \<Rightarrow> (attempt + 1, TimedOut))"

definition run_agent_non_stream :: "(nat \<Rightarrow> attempt) \<Rightarrow> nat \<times> run_result" where
  "run_agent_non_stream run = attempt_loop run 0 max_attempts"

text \<open>
  Outbound protocol messages. The content of an error message is either the fixed text
  \<^verbatim>\<open>Request timed out (U+2014) the model took too long to respond.\<close>, whose dash is
  outside the code points modelled, or a description.
\<close>

datatype error_content = TimedOutText | Description string

datatype outbound =
    ObsStatus bool string
  | StreamStart
  | StreamDelta string
  | StreamEnd
  | Error error_content
  | Transcription string
  | VoiceStatus bool

text \<open>\<^verbatim>\<open>_handle_agent_stream\<close>: the messages sent, in order.\<close>

definition handle_agent_stream :: "(nat \<Rightarrow> attempt) \<Rightarrow> outbound list" where
  "handle_agent_stream run =
     StreamStart #
     (case snd (run_agent_non_stream run) of
        Done result \<Rightarrow> [StreamDelta result, StreamEnd]
      | TimedOut \<Rightarrow> [Error TimedOutText]
      | Failed e \<Rightarrow>
          if cls e = TimeoutError then [Error TimedOutText]
          else [Error (Description (descr e))])"

section \<open>main.py: the wake word\<close>

text \<open>
  \<^verbatim>\<open>_WAKE_RE = re.compile(r"\bobs[\s,.:!?]+(.+)", re.IGNORECASE)\<close>, matched by
  \<^verbatim>\<open>search\<close>. Below 256 the word characters of \<^verbatim>\<open>\b\<close> are the digits, the letters, the
  underscore and the code points 170, 178, 179, 181, 185, 186, 188..190, 192..214, 216..246
  and 248..255; \<^verbatim>\<open>\s\<close> is the white space of \<open>py_isspace\<close>; the dot matches everything but
  the newline; and under \<^verbatim>\<open>IGNORECASE\<close> a letter of \<^verbatim>\<open>obs\<close> matches itself and its capital.
\<close>

definition is_word :: "char \<Rightarrow> bool" where
  "is_word c =
     (let n = (of_char c :: nat)
      in (48 \<le> n \<and> n \<le> 57) \<or> (65 \<le> n \<and> n \<le> 90) \<or> n = 95 \<or> (97 \<le> n \<and> n \<le> 122) \<or>
         n = 170 \<or> n = 178 \<or> n = 179 \<or> n = 181 \<or> n = 185 \<or> n = 186 \<or>
         (188 \<le> n \<and> n \<le> 190) \<or> (192 \<le> n \<and> n \<le> 214) \<or> (216 \<le> n \<and> n \<le> 246) \<or>
         (248 \<le> n \<and> n \<le> 255))"

definition is_sep :: "char \<Rightarrow> bool" where
  "is_sep c = (py_isspace c \<or> c \<in> set '',.:!?'')"

definition newline :: char where
  "newline = CHR 0x0A"

text \<open>\<^verbatim>\<open>\b\<close> between the character before the position (if any) and the one at it (if any).\<close>

definition word_boundary :: "char option \<Rightarrow> string \<Rightarrow> bool" where
  "word_boundary prev s =
     ((case prev of None \<Rightarrow> False | Some p \<Rightarrow> is_word p) \<noteq>
      (case s of [] \<Rightarrow> False | c # cs \<Rightarrow> is_word c))"

text \<open>The literal \<^verbatim>\<open>obs\<close>, ignoring case: the rest of the string after it, if it is there.\<close>

fun match_obs :: "string \<Rightarrow> string option" where
  "match_obs (c1 # c2 # c3 # rest) =
     (if (c1 = CHR ''o'' \<or> c1 = CHR ''O'') \<and> (c2 = CHR ''b'' \<or> c2 = CHR ''B'') \<and>
         (c3 = CHR ''s'' \<or> c3 = CHR ''S'')
      then Some rest else None)"
| "match_obs cs = None"

text \<open>\<^verbatim>\<open>(.+)\<close>, greedy: the longest run of characters other than the newline, at least one.\<close>

definition dot_plus :: "string \<Rightarrow> string option" where
  "dot_plus s =
     (let g = takeWhile (\<lambda>c. c \<noteq> newline) s in if g = [] then None else Some g)"

text \<open>
  \<^verbatim>\<open>[\s,.:!?]+(.+)\<close> with backtracking: the separator run is tried with \<open>k\<close> characters, the
  longest first, down to one, until the group matches after it.
\<close>

fun try_seps :: "nat \<Rightarrow> string \<Rightarrow> string option" where
  "try_seps 0 r = None"
| "try_seps (Suc k) r =
     (case dot_plus (drop (Suc k) r) of
        Some g \<Rightarrow> Some g
      | None \<Rightarrow> try_seps k r)"

definition seps_group :: "string \<Rightarrow> string option" where
  "seps_group r = try_seps (length (takeWhile is_sep r)) r"

text \<open>A match that starts at the current position: group 1.\<close>

definition match_here :: "char option \<Rightarrow> string \<Rightarrow> string option" where
  "match_here prev s =
     (if word_boundary prev s
      then (case match_obs s of None \<Rightarrow> None | Some r \<Rightarrow> seps_group r)
      else None)"

text \<open>\<^verbatim>\<open>_WAKE_RE.search\<close>: the match at the leftmost position that has one; \<open>prev\<close> is the
  character before the current position.\<close>

fun wake_search :: "char option \<Rightarrow> string \<Rightarrow> string option" where
  "wake_search prev [] = None"
| "wake_search prev (c # cs) =
     (case match_here prev (c # cs) of
        Some g \<Rightarrow> Some g
      | None \<Rightarrow> wake_search (Some c) cs)"

text \<open>The gate of \<^verbatim>\<open>_handle_transcription\<close>:
  \<^verbatim>\<open>m = _WAKE_RE.search(text.strip())\<close> and \<^verbatim>\<open>command = m.group(1).strip()\<close>.\<close>

definition wake_extract :: "string \<Rightarrow> string option" where
  "wake_extract text = map_option strip (wake_search None (strip text))"

text \<open>\<^verbatim>\<open>_handle_transcription\<close>: the messages sent for one transcribed text.\<close>

definition handle_transcription :: "(json \<Rightarrow> nat \<Rightarrow> attempt) \<Rightarrow> string \<Rightarrow> outbound list" where
  "handle_transcription agent_run text =
     (case wake_extract text of
        Some command \<Rightarrow> Transcription text # handle_agent_stream (agent_run (JStr command))
      | None \<Rightarrow> [])"

text \<open>
  An occurrence of the wake word in \<open>s\<close>, where \<open>prev\<close> is the character before \<open>s\<close>: the
  string splits into \<open>pre\<close>, the three letters, a non-empty run \<open>seps\<close> of separators, one
  character \<open>c\<close> other than the newline, and the rest, with a word boundary before the letters.
\<close>

definition wake_occurrence ::
  "char option \<Rightarrow> string \<Rightarrow> string \<Rightarrow> string \<Rightarrow> string \<Rightarrow> char \<Rightarrow> string \<Rightarrow> bool" where
  "wake_occurrence prev s pre w seps c rest \<longleftrightarrow>
     s = pre @ w @ seps @ c # rest \<and>
     match_obs w = Some [] \<and>
     word_boundary (if pre = [] then prev else Some (last pre)) w \<and>
     seps \<noteq> [] \<and> list_all is_sep seps \<and> c \<noteq> newline"

text \<open>
  The match that \<^verbatim>\<open>search\<close> reports, said without the algorithm: an occurrence of the wake
  word with group \<open>g\<close>, where \<open>g\<close> is a run of characters other than the newline that ends at
  a newline or at the end of the string; no occurrence starts further left; and no longer
  run of separators after these letters is followed by a character other than the newline.
\<close>

definition wake_match ::
  "char option \<Rightarrow> string \<Rightarrow> string \<Rightarrow> string \<Rightarrow> string \<Rightarrow> string \<Rightarrow> string \<Rightarrow> bool" where
  "wake_match prev s pre w seps g rest \<longleftrightarrow>
     s = pre @ w @ seps @ g @ rest \<and>
     match_obs w = Some [] \<and>
     word_boundary (if pre = [] then prev else Some (last pre)) w \<and>
     seps \<noteq> [] \<and> list_all is_sep seps \<and>
     g \<noteq> [] \<and> newline \<notin> set g \<and> (rest = [] \<or> hd rest = newline) \<and>
     (\<forall>pre' w' seps' c' rest'.
        wake_occurrence prev s pre' w' seps' c' rest' \<longrightarrow> length pre \<le> length pre') \<and>
     (\<forall>seps' c' rest'.
        seps @ g @ rest = seps' @ c' # rest' \<and> list_all is_sep seps' \<and> c' \<noteq> newline
        \<longrightarrow> length seps' \<le> length seps)"

section \<open>main.py: the session loop\<close>

text \<open>
  \<^verbatim>\<open>websocket_chat\<close>. One inbound event is a transport disconnect
  (\<^verbatim>\<open>receive_text\<close> raises \<^verbatim>\<open>WebSocketDisconnect\<close>), a text on which \<^verbatim>\<open>json.loads\<close> raises
  \<^verbatim>\<open>JSONDecodeError\<close>, or a text together with the value \<^verbatim>\<open>json.loads\<close> returns for it.
  The connector \<^verbatim>\<open>connect_obs\<close> is a parameter (it catches every exception itself).
\<close>

typedecl ReqClient

datatype inbound = Disconnect | NotJson string | Json json

text \<open>
  The session's variables: the OBS client (the global and \<^verbatim>\<open>deps.obs_client\<close>, assigned
  together), and \<^verbatim>\<open>listener\<close>, a reference to a \<^verbatim>\<open>VoiceListener\<close> object or \<^verbatim>\<open>None\<close>.
  \<open>listeners\<close> is the store of the listener objects this session has created; a reference
  is an index into it.
\<close>

record session =
  obs_client :: "ReqClient option"
  listeners :: "voice_listener list"
  listener :: "nat option"

datatype status = Receiving | Closed | Crashed exc_class

text \<open>\<^verbatim>\<open>listener and listener.running\<close>; its negation is
  \<^verbatim>\<open>listener is None or not listener.running\<close>.\<close>

definition listener_running :: "session \<Rightarrow> bool" where
  "listener_running s =
     (case listener s of
        None \<Rightarrow> False
      | Some i \<Rightarrow> i < length (listeners s) \<and> running (listeners s ! i))"

text \<open>\<^verbatim>\<open>listener = VoiceListener(on_transcription=on_transcription); listener.start()\<close>\<close>

definition new_listener :: "session \<Rightarrow> session" where
  "new_listener s =
     s\<lparr>listeners := listeners s @ [start init_listener], listener := Some (length (listeners s))\<rparr>"

text \<open>\<^verbatim>\<open>listener.stop()\<close> on the object the reference points to.\<close>

definition stop_listener :: "session \<Rightarrow> session" where
  "stop_listener s =
     (case listener s of
        None \<Rightarrow> s
      | Some i \<Rightarrow> s\<lparr>listeners := (listeners s)[i := stop (listeners s ! i)]\<rparr>)"

text \<open>The body of the loop for a decoded object \<open>d\<close>: the new session, the messages sent
  and whether the loop goes on.\<close>

definition handle_object ::
  "(json \<Rightarrow> nat \<Rightarrow> attempt) \<Rightarrow> (int \<Rightarrow> json \<Rightarrow> ReqClient option \<times> string) \<Rightarrow>
   session \<Rightarrow> (string \<times> json) list \<Rightarrow> session \<times> outbound list \<times> status" where
  "handle_object agent_run connect_obs s d =
     (let msg_type = dict_get d ''type'' (JStr '''') in
      if msg_type = JStr ''message'' then
        (let user_message = dict_get d ''content'' (JStr '''') in
         if \<not> truthy user_message then (s, [], Receiving)
         else (s, handle_agent_stream (agent_run user_message), Receiving))
      else if msg_type = JStr ''obs_connect'' then
        (case py_int (dict_get d ''port'' (JInt 4455)) of
           Inl e \<Rightarrow> (s, [], Crashed e)
         | Inr port \<Rightarrow>
             (let password = dict_get d ''password'' (JStr '''');
                  (client, msg) = connect_obs port password
              in (s\<lparr>obs_client := client\<rparr>, [ObsStatus (client \<noteq> None) msg], Receiving)))
      else if msg_type = JStr ''voice_start'' then
        ((if \<not> listener_running s then new_listener s else s), [VoiceStatus True], Receiving)
      else if msg_type = JStr ''voice_stop'' then
        ((if listener_running s then (stop_listener s)\<lparr>listener := None\<rparr> else s),
         [VoiceStatus False], Receiving)
      else (s, [], Receiving))"

text \<open>
  One iteration of \<^verbatim>\<open>while True\<close>. Only \<^verbatim>\<open>WebSocketDisconnect\<close> is caught; any other
  exception leaves \<^verbatim>\<open>websocket_chat\<close>. \<^verbatim>\<open>data.get\<close> on a value that is not a dict raises
  \<^verbatim>\<open>AttributeError\<close>.
\<close>

definition websocket_step ::
  "(json \<Rightarrow> nat \<Rightarrow> attempt) \<Rightarrow> (int \<Rightarrow> json \<Rightarrow> ReqClient option \<times> string) \<Rightarrow>
   session \<Rightarrow> inbound \<Rightarrow> session \<times> outbound list \<times> status" where
  "websocket_step agent_run connect_obs s ev =
     (case ev of
        Disconnect \<Rightarrow> ((if listener_running s then stop_listener s else s), [], Closed)
      | NotJson raw \<Rightarrow> (s, [], Crashed JSONDecodeError)
      | Json data \<Rightarrow>
          (case data of
             JObj d \<Rightarrow> handle_object agent_run connect_obs s d
           | _ \<Rightarrow> (s, [], Crashed AttributeError)))"

text \<open>The loop over the inbound events; with no event left it waits in
  \<^verbatim>\<open>receive_text\<close>.\<close>

fun chat_loop ::
  "(json \<Rightarrow> nat \<Rightarrow> attempt) \<Rightarrow> (int \<Rightarrow> json \<Rightarrow> ReqClient option \<times> string) \<Rightarrow>
   session \<Rightarrow> inbound list \<Rightarrow> session \<times> outbound list \<times> status" where
  "chat_loop agent_run connect_obs s [] = (s, [], Receiving)"
| "chat_loop agent_run connect_obs s (ev # evs) =
     (case websocket_step agent_run connect_obs s ev of
        (s1, out1, st1) \<Rightarrow>
          if st1 = Receiving then
            (case chat_loop agent_run connect_obs s1 evs of
               (s2, out2, st2) \<Rightarrow> (s2, out1 @ out2, st2))
          else (s1, out1, st1))"

text \<open>\<^verbatim>\<open>websocket_chat\<close> from the accept on: the status message, then the loop.\<close>

definition new_session :: "ReqClient option \<Rightarrow> session" where
  "new_session client = \<lparr>obs_client = client, listeners = [], listener = None\<rparr>"

definition websocket_chat ::
  "(json \<Rightarrow> nat \<Rightarrow> attempt) \<Rightarrow> (int \<Rightarrow> json \<Rightarrow> ReqClient option \<times> string) \<Rightarrow>
   ReqClient option \<Rightarrow> inbound list \<Rightarrow> session \<times> outbound list \<times> status" where
  "websocket_chat agent_run connect_obs client evs =
     (case chat_loop agent_run connect_obs (new_session client) evs of
        (s, out, st) \<Rightarrow>
          (s,
           ObsStatus (client \<noteq> None) (if client \<noteq> None then ''connected'' else ''not connected'')
             # out,
           st))"

section \<open>Facts about the capture callback\<close>

lemma silence_blocks_eq: "silence_blocks = 3"
  by (simp add: silence_blocks_def SILENCE_TIMEOUT_def BLOCK_DURATION_def)

lemma block_size_eq: "block_size = 8000"
  by (simp add: block_size_def SAMPLE_RATE_def BLOCK_DURATION_def)


lemma trailing_silent_snoc:
  "trailing_silent (bs @ [b]) = (if is_speech b then 0 else Suc (trailing_silent bs))"
  by (simp add: trailing_silent_def)

lemma audio_cb_running: "running s \<Longrightarrow> \<exists>s'. audio_cb s b = Inr s' \<and> running s'"
  by (simp add: audio_cb_def Let_def)

lemma listen_loop_snoc:
  "running s \<Longrightarrow> audio_cb (listen_loop s bs) b = Inr s' \<Longrightarrow> listen_loop s (bs @ [b]) = s'"
proof (induction bs arbitrary: s)
  case Nil
  then show ?case by simp
next
  case (Cons c cs)
  from Cons.prems obtain s1 where s1: "audio_cb s c = Inr s1" "running s1"
    using audio_cb_running by blast
  then show ?case using Cons.IH [of s1] Cons.prems by simp
qed

lemma listen_loop_running: "running s \<Longrightarrow> running (listen_loop s bs)"
proof (induction bs arbitrary: s)
  case Nil
  then show ?case by simp
next
  case (Cons c cs)
  from Cons.prems obtain s1 where s1: "audio_cb s c = Inr s1" "running s1"
    using audio_cb_running by blast
  then show ?case using Cons.IH [of s1] by simp
qed

lemma vad_inv_started: "vad_inv [] started"
  by (simp add: vad_inv_def started_def start_def init_listener_def)

lemma vad_inv_step:
  assumes inv: "vad_inv bs s" and cb: "audio_cb s b = Inr s'"
  shows "vad_inv (bs @ [b]) s'"
proof -
  from inv have run: "running s" by (simp add: vad_inv_def)
  have q: "\<forall>u \<in> set (queue s). \<exists>a. u = Some a \<and> duration_of a \<ge> MIN_SPEECH_DURATION"
    using inv by (simp add: vad_inv_def)
  show ?thesis
  proof (cases "is_speech b")
    case True
    with cb run have s': "s' = s\<lparr>is_speaking := True, audio_buffer := audio_buffer s @ [chunk b],
        silent_count := 0\<rparr>"
      by (auto simp add: audio_cb_def Let_def is_speech_def)
    have "\<exists>h pre. bs @ [b] = h @ pre \<and> audio_buffer s @ [chunk b] = map chunk pre \<and> pre \<noteq> [] \<and>
              is_speech (hd pre) \<and> is_speech (last pre)"
    proof (cases "is_speaking s")
      case sp: True
      with inv obtain h pre sil where d: "bs = h @ pre @ sil" "audio_buffer s = map chunk (pre @ sil)"
        "pre \<noteq> []" "is_speech (hd pre)"
        by (auto simp add: vad_inv_def)
      have "bs @ [b] = h @ (pre @ sil @ [b]) \<and>
            audio_buffer s @ [chunk b] = map chunk (pre @ sil @ [b]) \<and> pre @ sil @ [b] \<noteq> [] \<and>
            is_speech (hd (pre @ sil @ [b])) \<and> is_speech (last (pre @ sil @ [b]))"
        using d True by simp
      then show ?thesis by blast
    next
      case False
      with inv have "audio_buffer s = []" by (simp add: vad_inv_def)
      then have "bs @ [b] = bs @ [b] \<and> audio_buffer s @ [chunk b] = map chunk [b] \<and> [b] \<noteq> [] \<and>
            is_speech (hd [b]) \<and> is_speech (last [b])"
        using True by simp
      then show ?thesis by blast
    qed
    then obtain h pre where "bs @ [b] = h @ pre @ []"
      "audio_buffer s @ [chunk b] = map chunk (pre @ [])" "pre \<noteq> []"
      "is_speech (hd pre)" "is_speech (last pre)" by auto
    then have "\<exists>h pre sil. bs @ [b] = h @ pre @ sil \<and>
              audio_buffer s @ [chunk b] = map chunk (pre @ sil) \<and> pre \<noteq> [] \<and>
              is_speech (hd pre) \<and> is_speech (last pre) \<and>
              (\<forall>c \<in> set sil. \<not> is_speech c) \<and> length sil = 0"
      by (metis empty_iff list.set(1) list.size(3))
    then show ?thesis using True run q
      by (simp add: vad_inv_def s' trailing_silent_snoc silence_blocks_eq)
  next
    case silent: False
    show ?thesis
    proof (cases "is_speaking s")
      case idle: False
      with cb run silent have "s' = s" by (auto simp add: audio_cb_def Let_def is_speech_def)
      then show ?thesis using inv idle by (simp add: vad_inv_def)
    next
      case sp: True
      with inv obtain h pre sil where d: "bs = h @ pre @ sil" "audio_buffer s = map chunk (pre @ sil)"
        "pre \<noteq> []" "is_speech (hd pre)" "is_speech (last pre)"
        "\<forall>c \<in> set sil. \<not> is_speech c" "length sil = silent_count s"
        and cnt: "silent_count s = trailing_silent bs" "silent_count s < silence_blocks"
        by (auto simp add: vad_inv_def)
      show ?thesis
      proof (cases "silent_count s + 1 \<ge> silence_blocks")
        case commit: True
        with cb run silent sp have
          "s' = s\<lparr>audio_buffer := [], silent_count := 0, is_speaking := False\<rparr> \<or>
           (duration_of (concat (audio_buffer s @ [chunk b])) \<ge> MIN_SPEECH_DURATION \<and>
            s' = s\<lparr>audio_buffer := [], silent_count := 0, is_speaking := False,
                  queue := queue s @ [Some (concat (audio_buffer s @ [chunk b]))]\<rparr>)"
          by (auto simp add: audio_cb_def Let_def is_speech_def duration_of_def split: if_splits)
        then show ?thesis using run q by (auto simp add: vad_inv_def)
      next
        case cont: False
        with cb run silent sp have s': "s' = s\<lparr>audio_buffer := audio_buffer s @ [chunk b],
              silent_count := silent_count s + 1\<rparr>"
          by (auto simp add: audio_cb_def Let_def is_speech_def)
        have "bs @ [b] = h @ pre @ (sil @ [b]) \<and>
              audio_buffer s @ [chunk b] = map chunk (pre @ (sil @ [b])) \<and>
              (\<forall>c \<in> set (sil @ [b]). \<not> is_speech c) \<and> length (sil @ [b]) = silent_count s + 1"
          using d silent by simp
        then have "\<exists>h pre sil'. bs @ [b] = h @ pre @ sil' \<and>
              audio_buffer s @ [chunk b] = map chunk (pre @ sil') \<and> pre \<noteq> [] \<and>
              is_speech (hd pre) \<and> is_speech (last pre) \<and>
              (\<forall>c \<in> set sil'. \<not> is_speech c) \<and> length sil' = silent_count s + 1"
          using d(3,4,5) by blast
        then show ?thesis using run q sp cnt cont silent
          by (simp add: vad_inv_def s' trailing_silent_snoc)
      qed
    qed
  qed
qed

lemma vad_inv_listen_loop: "vad_inv bs (listen_loop started bs)"
proof (induction bs rule: rev_induct)
  case Nil
  then show ?case by (simp add: vad_inv_started)
next
  case (snoc b bs)
  have run: "running started" by (simp add: started_def start_def init_listener_def)
  then obtain s' where s': "audio_cb (listen_loop started bs) b = Inr s'"
    using audio_cb_running listen_loop_running by blast
  then show ?case using snoc vad_inv_step listen_loop_snoc [OF run s'] by simp
qed

lemma audio_cb_queue:
  assumes "audio_cb s b = Inr s'"
  shows "queue s' = queue s \<or>
         (queue s' = queue s @ [Some (concat (audio_buffer s @ [chunk b]))] \<and>
          duration_of (concat (audio_buffer s @ [chunk b])) \<ge> MIN_SPEECH_DURATION \<and>
          is_speaking s \<and> \<not> is_speaking s')"
  using assms by (auto simp add: audio_cb_def Let_def duration_of_def split: if_splits)

lemma audio_cb_commit:
  assumes "audio_cb s b = Inr s'" and "is_speaking s" and "\<not> is_speaking s'"
  shows "\<not> is_speech b \<and> silent_count s + 1 \<ge> silence_blocks \<and>
         audio_buffer s' = [] \<and> silent_count s' = 0 \<and>
         queue s' = (if duration_of (concat (audio_buffer s @ [chunk b])) \<ge> MIN_SPEECH_DURATION
                     then queue s @ [Some (concat (audio_buffer s @ [chunk b]))] else queue s)"
  using assms by (auto simp add: audio_cb_def Let_def duration_of_def is_speech_def split: if_splits)



lemmas vad_eval = started_def start_def init_listener_def audio_cb_def Let_def
  SILENCE_THRESHOLD_def float_gt_def float_le_def silence_blocks_eq SAMPLE_RATE_def
  MIN_SPEECH_DURATION_def

text \<open>
  Claim C4, as stated, fails on a block whose level is NaN: \<^verbatim>\<open>level > SILENCE_THRESHOLD\<close>
  is false for NaN (the level of a chunk that holds a NaN sample), so the callback counts
  the block as silent although its RMS is not less than or equal to 0.01. After one speech
  block, three such blocks commit the utterance and take the detector back to idle.
\<close>

theorem nan_blocks_commit:
  "is_speaking (listen_loop started
      [\<lparr>chunk = replicate 8000 (Finite 1 0), level = Finite 1 0\<rparr>,
       \<lparr>chunk = replicate 8000 NaN, level = NaN\<rparr>,
       \<lparr>chunk = replicate 8000 NaN, level = NaN\<rparr>]) \<and>
   \<not> is_speaking (listen_loop started
      [\<lparr>chunk = replicate 8000 (Finite 1 0), level = Finite 1 0\<rparr>,
       \<lparr>chunk = replicate 8000 NaN, level = NaN\<rparr>,
       \<lparr>chunk = replicate 8000 NaN, level = NaN\<rparr>,
       \<lparr>chunk = replicate 8000 NaN, level = NaN\<rparr>]) \<and>
   \<not> float_le (level \<lparr>chunk = replicate 8000 NaN, level = NaN\<rparr>) SILENCE_THRESHOLD \<and>
   \<not> float_gt (level \<lparr>chunk = replicate 8000 NaN, level = NaN\<rparr>) SILENCE_THRESHOLD"
  by (simp add: vad_eval)



text \<open>
  Claim C5. After any block stream, every item of the utterance queue is an utterance of
  at least 0.5 s; a candidate committed at the silence timeout whose duration is below
  0.5 s leaves the queue unchanged; and a callback changes the queue only by appending the
  committed candidate, whose duration is then at least 0.5 s. Blocks may have any length
  here.
\<close>

theorem queue_min_duration:
  fixes bs :: "block list" and b :: block
  defines "s \<equiv> listen_loop started bs"
  shows "(\<forall>u \<in> set (queue s). \<exists>a. u = Some a \<and> real (length a) / 16000 \<ge> 0.5) \<and>
         (\<forall>s'. audio_cb s b = Inr s' \<and> is_speaking s \<and> \<not> is_speaking s' \<and>
               real (length (concat (audio_buffer s @ [chunk b]))) / 16000 < 0.5
               \<longrightarrow> queue s' = queue s) \<and>
         (\<forall>s'. audio_cb s b = Inr s' \<and> queue s' \<noteq> queue s
               \<longrightarrow> queue s' = queue s @ [Some (concat (audio_buffer s @ [chunk b]))] \<and>
                   real (length (concat (audio_buffer s @ [chunk b]))) / 16000 \<ge> 0.5)"
proof -
  have inv: "vad_inv bs s" unfolding s_def by (rule vad_inv_listen_loop)
  have d: "\<And>a. duration_of a = real (length a) / 16000"
    by (simp add: duration_of_def SAMPLE_RATE_def)
  have 1: "\<forall>u \<in> set (queue s). \<exists>a. u = Some a \<and> real (length a) / 16000 \<ge> 0.5"
    using inv by (simp add: vad_inv_def d MIN_SPEECH_DURATION_def)
  have 2: "\<forall>s'. audio_cb s b = Inr s' \<and> is_speaking s \<and> \<not> is_speaking s' \<and>
               real (length (concat (audio_buffer s @ [chunk b]))) / 16000 < 0.5
               \<longrightarrow> queue s' = queue s"
    using audio_cb_queue [of s b] by (auto simp add: d MIN_SPEECH_DURATION_def)
  have 3: "\<forall>s'. audio_cb s b = Inr s' \<and> queue s' \<noteq> queue s
               \<longrightarrow> queue s' = queue s @ [Some (concat (audio_buffer s @ [chunk b]))] \<and>
                   real (length (concat (audio_buffer s @ [chunk b]))) / 16000 \<ge> 0.5"
    using audio_cb_queue [of s b] by (auto simp add: d MIN_SPEECH_DURATION_def)
  from 1 2 3 show ?thesis by blast
qed

theorem queue_min_duration_witness:
  "queue (listen_loop started
      [\<lparr>chunk = replicate 8000 (Finite 1 0), level = Finite 1 0\<rparr>,
       \<lparr>chunk = [Finite 0 0], level = Finite 0 0\<rparr>, \<lparr>chunk = [Finite 0 0], level = Finite 0 0\<rparr>,
       \<lparr>chunk = [Finite 0 0], level = Finite 0 0\<rparr>,
       \<lparr>chunk = [Finite 1 0], level = Finite 1 0\<rparr>,
       \<lparr>chunk = [Finite 0 0], level = Finite 0 0\<rparr>, \<lparr>chunk = [Finite 0 0], level = Finite 0 0\<rparr>]) =
      [Some (replicate 8000 (Finite 1 0) @ [Finite 0 0, Finite 0 0, Finite 0 0])] \<and>
   queue (listen_loop started
      [\<lparr>chunk = replicate 8000 (Finite 1 0), level = Finite 1 0\<rparr>,
       \<lparr>chunk = [Finite 0 0], level = Finite 0 0\<rparr>, \<lparr>chunk = [Finite 0 0], level = Finite 0 0\<rparr>,
       \<lparr>chunk = [Finite 0 0], level = Finite 0 0\<rparr>,
       \<lparr>chunk = [Finite 1 0], level = Finite 1 0\<rparr>,
       \<lparr>chunk = [Finite 0 0], level = Finite 0 0\<rparr>, \<lparr>chunk = [Finite 0 0], level = Finite 0 0\<rparr>,
       \<lparr>chunk = [Finite 0 0], level = Finite 0 0\<rparr>]) =
      [Some (replicate 8000 (Finite 1 0) @ [Finite 0 0, Finite 0 0, Finite 0 0])] \<and>
   real (length (replicate 8000 (Finite 1 0) @ [Finite 0 0, Finite 0 0, Finite 0 0])) / 16000 \<ge> 0.5"
  using queue_min_duration [of
      "[\<lparr>chunk = replicate 8000 (Finite 1 0), level = Finite 1 0\<rparr>,
       \<lparr>chunk = [Finite 0 0], level = Finite 0 0\<rparr>, \<lparr>chunk = [Finite 0 0], level = Finite 0 0\<rparr>,
       \<lparr>chunk = [Finite 0 0], level = Finite 0 0\<rparr>,
       \<lparr>chunk = [Finite 1 0], level = Finite 1 0\<rparr>,
       \<lparr>chunk = [Finite 0 0], level = Finite 0 0\<rparr>, \<lparr>chunk = [Finite 0 0], level = Finite 0 0\<rparr>]"
      "\<lparr>chunk = [Finite 0 0], level = Finite 0 0\<rparr>"]
  by (simp add: vad_eval)

lemma length_concat_const:
  "\<forall>c \<in> set xs. length c = n \<Longrightarrow> length (concat xs) = n * length xs"
  by (induction xs) auto

text \<open>
  Claim C10. The input stream is opened with \<^verbatim>\<open>blocksize=block_size\<close>, so every block has
  \<open>block_size\<close> = 8000 samples. Then a candidate committed at the silence timeout consists
  of the chunks of a stretch of blocks that starts and ends with a block classified as
  speech, followed by exactly three blocks classified as silent; its duration is at least
  2.0 s, and it is appended to the queue (the discard branch is not taken).
\<close>

theorem committed_candidate_enqueued:
  fixes bs :: "block list" and b :: block
  defines "s \<equiv> listen_loop started bs"
  assumes sizes: "\<forall>c \<in> set (bs @ [b]). length (chunk c) = block_size"
    and cb: "audio_cb s b = Inr s'"
    and sp: "is_speaking s" and idle: "\<not> is_speaking s'"
  shows "\<exists>h pre s1 s2. bs @ [b] = h @ pre @ [s1, s2, b] \<and>
            audio_buffer s @ [chunk b] = map chunk (pre @ [s1, s2, b]) \<and> pre \<noteq> [] \<and>
            float_gt (level (hd pre)) SILENCE_THRESHOLD \<and>
            float_gt (level (last pre)) SILENCE_THRESHOLD \<and>
            \<not> float_gt (level s1) SILENCE_THRESHOLD \<and>
            \<not> float_gt (level s2) SILENCE_THRESHOLD \<and>
            \<not> float_gt (level b) SILENCE_THRESHOLD \<and>
            real (length (concat (audio_buffer s @ [chunk b]))) / 16000 \<ge> 2.0 \<and>
            queue s' = queue s @ [Some (concat (audio_buffer s @ [chunk b]))]"
proof -
  have inv: "vad_inv bs s" unfolding s_def by (rule vad_inv_listen_loop)
  from inv sp obtain h pre sil where d: "bs = h @ pre @ sil" "audio_buffer s = map chunk (pre @ sil)"
    "pre \<noteq> []" "is_speech (hd pre)" "is_speech (last pre)"
    "\<forall>c \<in> set sil. \<not> is_speech c" "length sil = silent_count s"
    and cnt: "silent_count s < 3"
    by (auto simp add: vad_inv_def silence_blocks_eq)
  from audio_cb_commit [OF cb sp idle] have com: "\<not> is_speech b" "silent_count s + 1 \<ge> 3"
    and q: "queue s' = (if duration_of (concat (audio_buffer s @ [chunk b])) \<ge> MIN_SPEECH_DURATION
                     then queue s @ [Some (concat (audio_buffer s @ [chunk b]))] else queue s)"
    by (simp_all add: silence_blocks_eq)
  from com cnt d(7) have "length sil = 2" by simp
  then obtain s1 s2 where s12: "sil = [s1, s2]"
    by (cases sil; cases "tl sil") auto
  have "\<forall>c \<in> set (audio_buffer s @ [chunk b]). length c = block_size"
    using sizes d(1,2) by auto
  then have "length (concat (audio_buffer s @ [chunk b])) =
      block_size * length (audio_buffer s @ [chunk b])"
    by (rule length_concat_const)
  also have "\<dots> = 8000 * (length pre + 3)"
    using d(2) s12 by (simp add: block_size_eq)
  finally have len: "length (concat (audio_buffer s @ [chunk b])) = 8000 * (length pre + 3)" .
  have "length pre \<ge> 1" using d(3) by (cases pre) auto
  with len have ge: "length (concat (audio_buffer s @ [chunk b])) \<ge> 32000" by simp
  then have dur: "real (length (concat (audio_buffer s @ [chunk b]))) / 16000 \<ge> 2.0" by simp
  then have "duration_of (concat (audio_buffer s @ [chunk b])) \<ge> MIN_SPEECH_DURATION"
    by (simp add: duration_of_def SAMPLE_RATE_def MIN_SPEECH_DURATION_def)
  with q have q': "queue s' = queue s @ [Some (concat (audio_buffer s @ [chunk b]))]" by simp
  have "bs @ [b] = h @ pre @ [s1, s2, b] \<and>
        audio_buffer s @ [chunk b] = map chunk (pre @ [s1, s2, b]) \<and> pre \<noteq> [] \<and>
            float_gt (level (hd pre)) SILENCE_THRESHOLD \<and>
            float_gt (level (last pre)) SILENCE_THRESHOLD \<and>
            \<not> float_gt (level s1) SILENCE_THRESHOLD \<and>
            \<not> float_gt (level s2) SILENCE_THRESHOLD \<and>
            \<not> float_gt (level b) SILENCE_THRESHOLD"
    using d s12 com by (auto simp add: is_speech_def)
  with dur q' show ?thesis by blast
qed

theorem committed_candidate_enqueued_witness:
  "length (chunk \<lparr>chunk = replicate 8000 (Finite 1 0), level = Finite 1 0\<rparr>) = block_size \<and>
   length (chunk \<lparr>chunk = replicate 8000 (Finite 0 0), level = Finite 0 0\<rparr>) = block_size \<and>
   is_speaking (listen_loop started
      [\<lparr>chunk = replicate 8000 (Finite 1 0), level = Finite 1 0\<rparr>,
       \<lparr>chunk = replicate 8000 (Finite 0 0), level = Finite 0 0\<rparr>,
       \<lparr>chunk = replicate 8000 (Finite 0 0), level = Finite 0 0\<rparr>]) \<and>
   (\<exists>s'. audio_cb (listen_loop started
      [\<lparr>chunk = replicate 8000 (Finite 1 0), level = Finite 1 0\<rparr>,
       \<lparr>chunk = replicate 8000 (Finite 0 0), level = Finite 0 0\<rparr>,
       \<lparr>chunk = replicate 8000 (Finite 0 0), level = Finite 0 0\<rparr>])
            \<lparr>chunk = replicate 8000 (Finite 0 0), level = Finite 0 0\<rparr> = Inr s' \<and>
          \<not> is_speaking s' \<and>
          queue s' = [Some (concat [replicate 8000 (Finite 1 0), replicate 8000 (Finite 0 0),
                                    replicate 8000 (Finite 0 0), replicate 8000 (Finite 0 0)])])"
proof -
  let ?one = "\<lparr>chunk = replicate 8000 (Finite 1 0), level = Finite 1 0\<rparr>"
  let ?zero = "\<lparr>chunk = replicate 8000 (Finite 0 0), level = Finite 0 0\<rparr>"
  let ?bs = "[?one, ?zero, ?zero]"
  have sizes: "\<forall>c \<in> set (?bs @ [?zero]). length (chunk c) = block_size"
    by (simp add: block_size_eq)
  have st: "listen_loop started ?bs =
      \<lparr>running = True, audio_buffer = map chunk ?bs, silent_count = 2, is_speaking = True,
       queue = [], thread_pairs = 1\<rparr>"
    by (simp add: vad_eval)
  have "\<exists>s'. audio_cb (listen_loop started ?bs) ?zero = Inr s' \<and> \<not> is_speaking s'"
    unfolding st by (simp add: vad_eval)
  then obtain s' where cb: "audio_cb (listen_loop started ?bs) ?zero = Inr s'"
    and idle: "\<not> is_speaking s'"
    by blast
  have sp: "is_speaking (listen_loop started ?bs)" unfolding st by simp
  from committed_candidate_enqueued [OF sizes cb sp idle]
  have "queue s' = queue (listen_loop started ?bs) @
          [Some (concat (audio_buffer (listen_loop started ?bs) @ [chunk ?zero]))]"
    by blast
  then have "queue s' = [Some (concat [replicate 8000 (Finite 1 0), replicate 8000 (Finite 0 0),
                                    replicate 8000 (Finite 0 0), replicate 8000 (Finite 0 0)])]"
    unfolding st by simp
  moreover have "length (chunk ?one) = block_size" and "length (chunk ?zero) = block_size"
    by (simp_all add: block_size_eq)
  ultimately show ?thesis using sp cb idle by blast
qed

section \<open>Facts about the transcription worker and stop\<close>

lemma transcribe_loop_stuck: "worker_step engine w = None \<Longrightarrow> transcribe_loop engine n w = w"
  by (cases n) simp_all

lemma step_head:
  "pc w = AtLoopHead \<Longrightarrow>
     worker_step engine w = Some (w\<lparr>pc := (if running (shared w) then AtGet else Exited)\<rparr>)"
  by (simp add: worker_step_def)

lemma step_exited: "pc w = Exited \<Longrightarrow> worker_step engine w = None"
  by (simp add: worker_step_def)

lemma step_get_sentinel:
  "pc w = AtGet \<Longrightarrow> queue (shared w) = None # rest \<Longrightarrow>
     worker_step engine w = Some (w\<lparr>shared := (shared w)\<lparr>queue := rest\<rparr>, pc := Exited\<rparr>)"
  by (simp add: worker_step_def)

lemma step_get_item:
  "pc w = AtGet \<Longrightarrow> queue (shared w) = Some a # rest \<Longrightarrow>
     worker_step engine w = Some (w\<lparr>shared := (shared w)\<lparr>queue := rest\<rparr>, pc := Transcribing a\<rparr>)"
  by (simp add: worker_step_def)

lemma step_transcribing:
  "pc w = Transcribing a \<Longrightarrow>
     \<exists>w'. worker_step engine w = Some w' \<and> pc w' = AtLoopHead \<and>
          transcribed w' = transcribed w @ [a] \<and> shared w' = shared w"
  by (cases "transcribe_audio engine a") (simp_all add: worker_step_def Let_def)

lemma run_from_head_stopped:
  assumes "pc w = AtLoopHead" and "\<not> running (shared w)"
  shows "transcribe_loop engine (Suc n) w = w\<lparr>pc := Exited\<rparr>"
proof -
  have "worker_step engine w = Some (w\<lparr>pc := Exited\<rparr>)"
    using assms by (simp add: step_head)
  moreover have "transcribe_loop engine n (w\<lparr>pc := Exited\<rparr>) = w\<lparr>pc := Exited\<rparr>"
    by (rule transcribe_loop_stuck) (simp add: step_exited)
  ultimately show ?thesis by simp
qed

lemma run_from_transcribing_stopped:
  assumes "pc w = Transcribing a" and "\<not> running (shared w)"
  shows "\<exists>w'. transcribe_loop engine (Suc (Suc n)) w = w' \<and> pc w' = Exited \<and>
              transcribed w' = transcribed w @ [a] \<and> shared w' = shared w"
proof -
  from step_transcribing [OF assms(1)] obtain w1 where
    w1: "worker_step engine w = Some w1" "pc w1 = AtLoopHead"
        "transcribed w1 = transcribed w @ [a]" "shared w1 = shared w"
    by blast
  have "transcribe_loop engine (Suc n) w1 = w1\<lparr>pc := Exited\<rparr>"
    using w1 assms(2) by (simp add: run_from_head_stopped del: transcribe_loop.simps)
  then have "transcribe_loop engine (Suc (Suc n)) w = w1\<lparr>pc := Exited\<rparr>"
    using w1(1) by simp
  then show ?thesis using w1 by simp
qed

text \<open>
  Claim C1, as stated, fails: the worker tests \<^verbatim>\<open>self._running\<close> at the head of its loop,
  and \<^verbatim>\<open>stop()\<close> clears the flag before it puts the sentinel. Here the worker is
  transcribing one utterance while a second one waits in the queue; after \<^verbatim>\<open>stop()\<close> it
  finishes the first, exits at the loop test, and the second utterance stays in the queue in
  front of the sentinel, never received.
\<close>

theorem stop_drops_queued_utterance:
  "pc (transcribe_loop (\<lambda>a. Some ''obs, hide webcam'') 3
        (stop_shared \<lparr>shared = started\<lparr>queue := [Some (replicate 40000 (Finite 1 (- 2)))]\<rparr>,
                      pc = Transcribing (replicate 32000 (Finite 1 (- 1))), transcribed = [], heard = []\<rparr>))
     = Exited \<and>
   transcribed (transcribe_loop (\<lambda>a. Some ''obs, hide webcam'') 3
        (stop_shared \<lparr>shared = started\<lparr>queue := [Some (replicate 40000 (Finite 1 (- 2)))]\<rparr>,
                      pc = Transcribing (replicate 32000 (Finite 1 (- 1))), transcribed = [], heard = []\<rparr>))
     = [replicate 32000 (Finite 1 (- 1))] \<and>
   queue (shared (transcribe_loop (\<lambda>a. Some ''obs, hide webcam'') 3
        (stop_shared \<lparr>shared = started\<lparr>queue := [Some (replicate 40000 (Finite 1 (- 2)))]\<rparr>,
                      pc = Transcribing (replicate 32000 (Finite 1 (- 1))), transcribed = [], heard = []\<rparr>)))
     = [Some (replicate 40000 (Finite 1 (- 2))), None]"
  by (simp add: numeral_3_eq_3 worker_step_def stop_shared_def stop_def started_def start_def
      init_listener_def transcribe_audio_def Let_def)

text \<open>
  Claim C1, amended. When \<^verbatim>\<open>stop()\<close> is called while the queue holds the utterances
  \<open>pending\<close>, the worker exits within three of its own steps, whatever its control point.
  At the loop test it exits at once; inside the body it finishes the utterance it is
  transcribing and exits at the next loop test; if it has already passed the loop test and
  is about to receive, it receives one more item (the first pending utterance, which it
  transcribes, or the sentinel when nothing is pending) and then exits. So at most one more
  utterance is transcribed, and every pending utterance after the first stays in the queue,
  never received.
\<close>

theorem stop_worker_exit:
  fixes w :: worker and engine :: "audio \<Rightarrow> string option" and n :: nat
  defines "w' \<equiv> transcribe_loop engine n (stop_shared w)"
  assumes q: "queue (shared w) = map Some pending" and n: "3 \<le> n"
  shows "pc w' = Exited \<and>
         (pc w = AtLoopHead \<or> pc w = Exited \<longrightarrow>
            transcribed w' = transcribed w \<and> queue (shared w') = map Some pending @ [None]) \<and>
         (\<forall>a. pc w = Transcribing a \<longrightarrow>
            transcribed w' = transcribed w @ [a] \<and> queue (shared w') = map Some pending @ [None]) \<and>
         (pc w = AtGet \<longrightarrow>
            transcribed w' = transcribed w @ take 1 pending \<and>
            queue (shared w') = tl (map Some pending @ [None])) \<and>
         length (transcribed w') \<le> length (transcribed w) + 1 \<and>
         (\<forall>u \<in> set (drop 1 pending). Some u \<in> set (queue (shared w')))"
proof -
  from n obtain m where m: "n = Suc (Suc (Suc m))"
    by (metis Suc_le_D numeral_3_eq_3 Suc_le_mono)
  let ?w = "stop_shared w"
  have st: "\<not> running (shared ?w)" "queue (shared ?w) = map Some pending @ [None]"
    "pc ?w = pc w" "transcribed ?w = transcribed w"
    using q by (simp_all add: stop_shared_def stop_def)
  have rest1: "\<forall>u \<in> set (drop 1 pending). Some u \<in> set (map Some pending @ [None])"
    by (auto dest: in_set_dropD)
  have rest2: "\<forall>u \<in> set (drop 1 pending). Some u \<in> set (tl (map Some pending @ [None]))"
    by (cases pending) auto
  show ?thesis
  proof (cases "pc w")
    case AtLoopHead
    then have "w' = ?w\<lparr>pc := Exited\<rparr>"
      unfolding w'_def m using st by (intro run_from_head_stopped) simp_all
    then show ?thesis using st AtLoopHead rest1 by simp
  next
    case AtGet
    show ?thesis
    proof (cases pending)
      case Nil
      then have "worker_step engine ?w = Some (?w\<lparr>shared := (shared ?w)\<lparr>queue := []\<rparr>, pc := Exited\<rparr>)"
        using st AtGet by (intro step_get_sentinel) simp_all
      moreover have "transcribe_loop engine (Suc (Suc m)) (?w\<lparr>shared := (shared ?w)\<lparr>queue := []\<rparr>, pc := Exited\<rparr>)
          = ?w\<lparr>shared := (shared ?w)\<lparr>queue := []\<rparr>, pc := Exited\<rparr>"
        by (rule transcribe_loop_stuck) (simp add: step_exited)
      ultimately have "w' = ?w\<lparr>shared := (shared ?w)\<lparr>queue := []\<rparr>, pc := Exited\<rparr>"
        unfolding w'_def m by simp
      then show ?thesis using st AtGet Nil by simp
    next
      case (Cons a rest')
      let ?w1 = "?w\<lparr>shared := (shared ?w)\<lparr>queue := map Some rest' @ [None]\<rparr>, pc := Transcribing a\<rparr>"
      have 1: "worker_step engine ?w = Some ?w1"
        using st AtGet Cons by (intro step_get_item) simp_all
      have "\<exists>v. transcribe_loop engine (Suc (Suc m)) ?w1 = v \<and> pc v = Exited \<and>
              transcribed v = transcribed ?w1 @ [a] \<and> shared v = shared ?w1"
        using st by (intro run_from_transcribing_stopped) simp_all
      then obtain v where v: "transcribe_loop engine (Suc (Suc m)) ?w1 = v" "pc v = Exited"
        "transcribed v = transcribed ?w1 @ [a]" "shared v = shared ?w1"
        by blast
      have "w' = v"
        unfolding w'_def m using 1 v(1) by simp
      then show ?thesis using v st AtGet Cons rest2 by simp
    qed
  next
    case (Transcribing a)
    have "\<exists>v. transcribe_loop engine (Suc (Suc (Suc m))) ?w = v \<and> pc v = Exited \<and>
              transcribed v = transcribed ?w @ [a] \<and> shared v = shared ?w"
      using st Transcribing by (intro run_from_transcribing_stopped) simp_all
    then have "pc w' = Exited \<and> transcribed w' = transcribed w @ [a] \<and>
        queue (shared w') = map Some pending @ [None]"
      using st unfolding w'_def m by auto
    then show ?thesis using Transcribing rest1 by simp
  next
    case Exited
    have "w' = ?w"
      unfolding w'_def using st Exited by (intro transcribe_loop_stuck step_exited) simp
    then show ?thesis using st Exited rest1 by simp
  qed
qed

theorem stop_worker_exit_witness:
  "pc (transcribe_loop (\<lambda>a. None) 3
        (stop_shared \<lparr>shared = started\<lparr>queue := [Some (replicate 32000 (Finite 1 (- 1))), Some (replicate 40000 (Finite 1 (- 2)))]\<rparr>,
                      pc = AtGet, transcribed = [], heard = []\<rparr>)) = Exited \<and>
   transcribed (transcribe_loop (\<lambda>a. None) 3
        (stop_shared \<lparr>shared = started\<lparr>queue := [Some (replicate 32000 (Finite 1 (- 1))), Some (replicate 40000 (Finite 1 (- 2)))]\<rparr>,
                      pc = AtGet, transcribed = [], heard = []\<rparr>)) = [replicate 32000 (Finite 1 (- 1))] \<and>
   queue (shared (transcribe_loop (\<lambda>a. None) 3
        (stop_shared \<lparr>shared = started\<lparr>queue := [Some (replicate 32000 (Finite 1 (- 1))), Some (replicate 40000 (Finite 1 (- 2)))]\<rparr>,
                      pc = AtGet, transcribed = [], heard = []\<rparr>))) = [Some (replicate 40000 (Finite 1 (- 2))), None]"
proof -
  let ?w = "\<lparr>shared = started\<lparr>queue := [Some (replicate 32000 (Finite 1 (- 1))), Some (replicate 40000 (Finite 1 (- 2)))]\<rparr>,
             pc = AtGet, transcribed = [], heard = []\<rparr>"
  have q: "queue (shared ?w) = map Some [replicate 32000 (Finite 1 (- 1)), replicate 40000 (Finite 1 (- 2))]"
    by simp
  have n: "(3::nat) \<le> 3" by simp
  from stop_worker_exit [OF q n, of "\<lambda>a. None"] show ?thesis
    by simp
qed

section \<open>Facts about the command dispatch\<close>

lemmas string_eval = strip_def py_isspace_def startswith_def

lemma attempt_loop_blank:
  "run a = Returns out \<Longrightarrow> is_blank out \<Longrightarrow> a < 2 \<Longrightarrow>
     attempt_loop run a (Suc left) = attempt_loop run (Suc a) left"
  by (simp add: max_attempts_def)

lemma attempt_loop_blank_last:
  "run a = Returns out \<Longrightarrow> is_blank out \<Longrightarrow> a \<ge> 2 \<Longrightarrow>
     attempt_loop run a (Suc left) =
       (Suc a, Done ''Sorry, I couldn't generate a response. Please try again.'')"
  by (simp add: max_attempts_def)

lemma attempt_loop_text:
  "run a = Returns (Some t) \<Longrightarrow> \<not> is_blank (Some t) \<Longrightarrow>
     attempt_loop run a (Suc left) = (Suc a, Done t)"
  by simp

lemma attempt_loop_transient:
  "run a = Raises e \<Longrightarrow> transient e \<Longrightarrow> a < 2 \<Longrightarrow>
     attempt_loop run a (Suc left) = attempt_loop run (Suc a) left"
  by (simp add: max_attempts_def)

lemma attempt_loop_transient_last:
  "run a = Raises e \<Longrightarrow> transient e \<Longrightarrow> a \<ge> 2 \<Longrightarrow>
     attempt_loop run a (Suc left) = (Suc a, Failed e)"
  by (simp add: max_attempts_def)



lemma run_agent_unfold: "run_agent_non_stream run = attempt_loop run 0 (Suc (Suc (Suc 0)))"
  by (simp add: run_agent_non_stream_def max_attempts_def numeral_3_eq_3)

lemma two_blank_then:
  assumes "run 0 = Returns out0" "is_blank out0" "run 1 = Returns out1" "is_blank out1"
  shows "run_agent_non_stream run = attempt_loop run (Suc (Suc 0)) (Suc 0)"
proof -
  have r1: "run (Suc 0) = Returns out1" using assms(3) by simp
  have "attempt_loop run 0 (Suc (Suc (Suc 0))) = attempt_loop run (Suc 0) (Suc (Suc 0))"
    by (rule attempt_loop_blank [of run 0, OF assms(1,2)]) simp
  also have "\<dots> = attempt_loop run (Suc (Suc 0)) (Suc 0)"
    by (rule attempt_loop_blank [of run "Suc 0", OF r1 assms(4)]) simp
  finally show ?thesis by (simp only: run_agent_unfold)
qed

lemma transient_exhausted:
  assumes "run 0 = Raises e0" "transient e0" "run 1 = Raises e1" "transient e1"
    "run 2 = Raises e2" "transient e2"
  shows "run_agent_non_stream run = (3, Failed e2)"
proof -
  have r1: "run (Suc 0) = Raises e1" using assms(3) by simp
  have r2: "run (Suc (Suc 0)) = Raises e2" using assms(5) by (simp add: numeral_2_eq_2)
  have "attempt_loop run 0 (Suc (Suc (Suc 0))) = attempt_loop run (Suc 0) (Suc (Suc 0))"
    by (rule attempt_loop_transient [of run 0, OF assms(1,2)]) simp
  also have "\<dots> = attempt_loop run (Suc (Suc 0)) (Suc 0)"
    by (rule attempt_loop_transient [of run "Suc 0", OF r1 assms(4)]) simp
  also have "\<dots> = (Suc (Suc (Suc 0)), Failed e2)"
    by (rule attempt_loop_transient_last [of run "Suc (Suc 0)", OF r2 assms(6)]) simp
  finally show ?thesis by (simp add: run_agent_unfold numeral_3_eq_3)
qed

text \<open>
  Claim C2 describes the intended behaviour; the code misses it. With an agent whose every
  call raises an error described as \<^verbatim>\<open>invalid_request_error\<close>, the dispatch retries twice,
  and the third error falls through to \<^verbatim>\<open>raise\<close>: \<^verbatim>\<open>_run_agent_non_stream\<close> fails
  after three calls, and \<^verbatim>\<open>_handle_agent_stream\<close> sends the error's description as an
  error message. The apology after the loop is never reached.
\<close>

theorem transient_error_surfaces:
  "run_agent_non_stream (\<lambda>n. Raises \<lparr>cls = OtherException, descr = ''invalid_request_error''\<rparr>)
     = (3, Failed \<lparr>cls = OtherException, descr = ''invalid_request_error''\<rparr>) \<and>
   handle_agent_stream (\<lambda>n. Raises \<lparr>cls = OtherException, descr = ''invalid_request_error''\<rparr>)
     = [StreamStart, Error (Description ''invalid_request_error'')]"
  by (simp add: handle_agent_stream_def run_agent_non_stream_def max_attempts_def numeral_3_eq_3
      transient_def startswith_def)

text \<open>
  Claim C7. If the first two calls return an empty or blank output (or \<^verbatim>\<open>None\<close>) and the
  third returns a text that is not blank, the dispatch returns that text after exactly three
  calls and the relay sends stream_start, one stream_delta with the text and stream_end,
  nothing else. If every call returns an empty or blank output, the dispatch returns the
  fixed apology after three calls and the relay sends it as the stream_delta, followed by
  stream_end; no error message is sent.
\<close>

theorem blank_retries:
  "(run 0 = Returns out0 \<and> is_blank out0 \<and> run 1 = Returns out1 \<and> is_blank out1 \<and>
    run 2 = Returns (Some t) \<and> \<not> is_blank (Some t)
    \<longrightarrow> run_agent_non_stream run = (3, Done t) \<and>
        handle_agent_stream run = [StreamStart, StreamDelta t, StreamEnd]) \<and>
   ((\<forall>n. \<exists>out. run n = Returns out \<and> is_blank out)
    \<longrightarrow> run_agent_non_stream run =
          (3, Done ''Sorry, I couldn't generate a response. Please try again.'') \<and>
        handle_agent_stream run =
          [StreamStart, StreamDelta ''Sorry, I couldn't generate a response. Please try again.'',
           StreamEnd])"
proof (intro conjI impI)
  assume a: "run 0 = Returns out0 \<and> is_blank out0 \<and> run 1 = Returns out1 \<and> is_blank out1 \<and>
    run 2 = Returns (Some t) \<and> \<not> is_blank (Some t)"
  then have r2: "run (Suc (Suc 0)) = Returns (Some t)" and nb: "\<not> is_blank (Some t)"
    by (simp_all add: numeral_2_eq_2)
  have "run_agent_non_stream run = attempt_loop run (Suc (Suc 0)) (Suc 0)"
    using a by (intro two_blank_then [of run out0 out1]) simp_all
  also have "\<dots> = (Suc (Suc (Suc 0)), Done t)"
    by (rule attempt_loop_text [of run "Suc (Suc 0)", OF r2 nb])
  finally show r: "run_agent_non_stream run = (3, Done t)"
    by (simp add: numeral_3_eq_3)
  then show "handle_agent_stream run = [StreamStart, StreamDelta t, StreamEnd]"
    by (simp add: handle_agent_stream_def)
next
  assume a: "\<forall>n. \<exists>out. run n = Returns out \<and> is_blank out"
  then obtain out0 out1 out2 where o: "run 0 = Returns out0" "is_blank out0"
    "run 1 = Returns out1" "is_blank out1" "run (Suc (Suc 0)) = Returns out2" "is_blank out2"
    by metis
  have "run_agent_non_stream run = attempt_loop run (Suc (Suc 0)) (Suc 0)"
    using o by (intro two_blank_then [of run out0 out1]) simp_all
  also have "\<dots> = (Suc (Suc (Suc 0)), Done ''Sorry, I couldn't generate a response. Please try again.'')"
    by (rule attempt_loop_blank_last [of run "Suc (Suc 0)", OF o(5,6)]) simp
  finally show r: "run_agent_non_stream run =
      (3, Done ''Sorry, I couldn't generate a response. Please try again.'')"
    by (simp add: numeral_3_eq_3)
  then show "handle_agent_stream run =
          [StreamStart, StreamDelta ''Sorry, I couldn't generate a response. Please try again.'',
           StreamEnd]"
    by (simp add: handle_agent_stream_def)
qed

theorem blank_retries_witness:
  "run_agent_non_stream (\<lambda>n. if n < 2 then Returns (Some ''  '') else Returns (Some ''Webcam hidden.''))
     = (3, Done ''Webcam hidden.'') \<and>
   handle_agent_stream (\<lambda>n. if n < 2 then Returns (Some ''  '') else Returns (Some ''Webcam hidden.''))
     = [StreamStart, StreamDelta ''Webcam hidden.'', StreamEnd] \<and>
   run_agent_non_stream (\<lambda>n. Returns None)
     = (3, Done ''Sorry, I couldn't generate a response. Please try again.'') \<and>
   handle_agent_stream (\<lambda>n. Returns (Some ''''))
     = [StreamStart, StreamDelta ''Sorry, I couldn't generate a response. Please try again.'',
        StreamEnd]"
  using blank_retries [of "\<lambda>n. if n < 2 then Returns (Some ''  '') else Returns (Some ''Webcam hidden.'')"
          "Some ''  ''" "Some ''  ''" "''Webcam hidden.''"]
        blank_retries [of "\<lambda>n. Returns None" None None "[]"]
        blank_retries [of "\<lambda>n. Returns (Some '''')" None None "[]"]
  by (simp add: string_eval)

section \<open>Facts about the session loop\<close>

lemma handle_agent_stream_cases:
  "handle_agent_stream run =
     (case snd (run_agent_non_stream run) of
        Done result \<Rightarrow> [StreamStart, StreamDelta result, StreamEnd]
      | TimedOut \<Rightarrow> [StreamStart, Error TimedOutText]
      | Failed e \<Rightarrow>
          if cls e = TimeoutError then [StreamStart, Error TimedOutText]
          else [StreamStart, Error (Description (descr e))])"
  by (simp add: handle_agent_stream_def split: run_result.splits)


text \<open>
  Claim C6, as stated, fails for an exception of class \<^verbatim>\<open>TimeoutError\<close> that the agent
  itself raises: the handler \<^verbatim>\<open>except asyncio.TimeoutError\<close> catches it by class, so the
  relay sends the fixed timeout text, not the exception's description, although the bounded
  wait did not run out (the dispatch failed after one call).
\<close>

theorem timeout_class_gets_fixed_text:
  "run_agent_non_stream (\<lambda>n. Raises \<lparr>cls = TimeoutError, descr = ''read timed out''\<rparr>)
     = (1, Failed \<lparr>cls = TimeoutError, descr = ''read timed out''\<rparr>) \<and>
   handle_agent_stream (\<lambda>n. Raises \<lparr>cls = TimeoutError, descr = ''read timed out''\<rparr>)
     = [StreamStart, Error TimedOutText] \<and>
   handle_agent_stream (\<lambda>n. Raises \<lparr>cls = TimeoutError, descr = ''read timed out''\<rparr>)
     \<noteq> [StreamStart, Error (Description ''read timed out'')]"
  by (simp add: handle_agent_stream_def run_agent_non_stream_def max_attempts_def numeral_3_eq_3
      transient_def string_eval)



lemma step_voice_start:
  assumes "dict_get d ''type'' (JStr '''') = JStr ''voice_start''"
  shows "websocket_step agent_run connect_obs s (Json (JObj d)) =
           ((if listener_running s then s else new_listener s), [VoiceStatus True], Receiving)"
  using assms by (simp add: websocket_step_def handle_object_def)

lemma step_voice_stop:
  assumes "dict_get d ''type'' (JStr '''') = JStr ''voice_stop''"
  shows "websocket_step agent_run connect_obs s (Json (JObj d)) =
           ((if listener_running s then (stop_listener s)\<lparr>listener := None\<rparr> else s),
            [VoiceStatus False], Receiving)"
  using assms by (simp add: websocket_step_def handle_object_def)

lemma new_listener_running: "listener_running (new_listener s)"
  by (simp add: listener_running_def new_listener_def start_def init_listener_def)

text \<open>
  Claim C9. A voice_start message handled while the session's listener is running leaves
  the session as it is (no listener is created or started) and is answered with
  voice_status listening true; a voice_stop message handled while no listener is running
  leaves the session as it is (nothing is stopped) and is answered with voice_status
  listening false. Two voice_start messages in a row end in the state the first one
  produced, each answered with voice_status listening true; from a new session that state
  has exactly one listener object, which is running and whose threads were started once.
\<close>

theorem voice_start_stop_idempotent:
  assumes start_msg: "dict_get d1 ''type'' (JStr '''') = JStr ''voice_start''"
    and stop_msg: "dict_get d2 ''type'' (JStr '''') = JStr ''voice_stop''"
  shows
  "(listener_running s \<longrightarrow>
      websocket_step agent_run connect_obs s (Json (JObj d1)) = (s, [VoiceStatus True], Receiving)) \<and>
   (\<not> listener_running s \<longrightarrow>
      websocket_step agent_run connect_obs s (Json (JObj d2)) = (s, [VoiceStatus False], Receiving)) \<and>
   chat_loop agent_run connect_obs s [Json (JObj d1), Json (JObj d1)] =
     (fst (websocket_step agent_run connect_obs s (Json (JObj d1))),
      [VoiceStatus True, VoiceStatus True], Receiving) \<and>
   chat_loop agent_run connect_obs (new_session client) [Json (JObj d1), Json (JObj d1)] =
     (\<lparr>obs_client = client, listeners = [started], listener = Some 0\<rparr>,
      [VoiceStatus True, VoiceStatus True], Receiving) \<and>
   running started \<and> thread_pairs started = 1 \<and>
   length (filter running
     (listeners (fst (chat_loop agent_run connect_obs (new_session client)
        [Json (JObj d1), Json (JObj d1)])))) = 1"
proof -
  have a: "listener_running s \<longrightarrow>
      websocket_step agent_run connect_obs s (Json (JObj d1)) = (s, [VoiceStatus True], Receiving)"
    by (simp add: step_voice_start [OF start_msg])
  have b: "\<not> listener_running s \<longrightarrow>
      websocket_step agent_run connect_obs s (Json (JObj d2)) = (s, [VoiceStatus False], Receiving)"
    by (simp add: step_voice_stop [OF stop_msg])
  have twice: "\<And>s. chat_loop agent_run connect_obs s [Json (JObj d1), Json (JObj d1)] =
     ((if listener_running s then s else new_listener s),
      [VoiceStatus True, VoiceStatus True], Receiving)"
    by (simp add: step_voice_start [OF start_msg] new_listener_running)
  have c: "chat_loop agent_run connect_obs s [Json (JObj d1), Json (JObj d1)] =
     (fst (websocket_step agent_run connect_obs s (Json (JObj d1))),
      [VoiceStatus True, VoiceStatus True], Receiving)"
    by (simp only: twice step_voice_start [OF start_msg] fst_conv)
  have d: "chat_loop agent_run connect_obs (new_session client) [Json (JObj d1), Json (JObj d1)] =
     (\<lparr>obs_client = client, listeners = [started], listener = Some 0\<rparr>,
      [VoiceStatus True, VoiceStatus True], Receiving)"
    by (simp only: twice) (simp add: new_session_def listener_running_def new_listener_def started_def)
  have e: "running started \<and> thread_pairs started = 1"
    by (simp add: started_def start_def init_listener_def)
  have f: "length (filter running
     (listeners (fst (chat_loop agent_run connect_obs (new_session client)
        [Json (JObj d1), Json (JObj d1)])))) = 1"
    using e by (simp only: d) simp
  from a b c d e f show ?thesis by blast
qed

theorem voice_start_stop_idempotent_witness:
  "listener_running \<lparr>obs_client = None, listeners = [started], listener = Some 0\<rparr> \<and>
   websocket_step (\<lambda>m n. Cancelled) (\<lambda>p w. (None, ''refused''))
       \<lparr>obs_client = None, listeners = [started], listener = Some 0\<rparr>
       (Json (JObj [(''type'', JStr ''voice_start'')]))
     = (\<lparr>obs_client = None, listeners = [started], listener = Some 0\<rparr>,
        [VoiceStatus True], Receiving) \<and>
   \<not> listener_running (new_session None) \<and>
   websocket_step (\<lambda>m n. Cancelled) (\<lambda>p w. (None, ''refused'')) (new_session None)
       (Json (JObj [(''type'', JStr ''voice_stop'')]))
     = (new_session None, [VoiceStatus False], Receiving) \<and>
   chat_loop (\<lambda>m n. Cancelled) (\<lambda>p w. (None, ''refused'')) (new_session None)
       [Json (JObj [(''type'', JStr ''voice_start'')]), Json (JObj [(''type'', JStr ''voice_start'')])]
     = (\<lparr>obs_client = None, listeners = [started], listener = Some 0\<rparr>,
        [VoiceStatus True, VoiceStatus True], Receiving)"
proof -
  have m1: "dict_get [(''type'', JStr ''voice_start'')] ''type'' (JStr '''') = JStr ''voice_start''"
    by (simp add: dict_get_def)
  have m2: "dict_get [(''type'', JStr ''voice_stop'')] ''type'' (JStr '''') = JStr ''voice_stop''"
    by (simp add: dict_get_def)
  have r: "listener_running \<lparr>obs_client = None, listeners = [started], listener = Some 0\<rparr>"
    by (simp add: listener_running_def started_def start_def init_listener_def)
  have n: "\<not> listener_running (new_session None)"
    by (simp add: listener_running_def new_session_def)
  from voice_start_stop_idempotent [OF m1 m2,
      of "\<lparr>obs_client = None, listeners = [started], listener = Some 0\<rparr>"
         "\<lambda>m n. Cancelled" "\<lambda>p w. (None, ''refused'')" None]
    voice_start_stop_idempotent [OF m1 m2, of "new_session None"
         "\<lambda>m n. Cancelled" "\<lambda>p w. (None, ''refused'')" None]
    r n
  show ?thesis by simp
qed

lemmas int_eval = int_of_str_def int_isspace_def is_digit_def digits_value_def
  int_max_str_digits_def

lemma chat_loop_stops:
  assumes "websocket_step agent_run connect_obs s ev = (s', out, st)" and "st \<noteq> Receiving"
  shows "chat_loop agent_run connect_obs s (ev # evs) = (s', out, st)"
  using assms by simp

text \<open>
  Claim C3, as stated, fails. A text that is not JSON makes \<^verbatim>\<open>json.loads\<close> raise, and an
  obs_connect message whose port is the string \<^verbatim>\<open>abc\<close> makes \<^verbatim>\<open>int\<close> raise; the loop
  catches only \<^verbatim>\<open>WebSocketDisconnect\<close>, so the exception ends \<^verbatim>\<open>websocket_chat\<close>: the
  voice_start message that follows is never handled.
\<close>

theorem malformed_message_ends_session:
  "chat_loop (\<lambda>m n. Cancelled) (\<lambda>p w. (None, ''refused'')) (new_session None)
       [NotJson ''hello'', Json (JObj [(''type'', JStr ''voice_start'')])]
     = (new_session None, [], Crashed JSONDecodeError) \<and>
   chat_loop (\<lambda>m n. Cancelled) (\<lambda>p w. (None, ''refused'')) (new_session None)
       [Json (JObj [(''type'', JStr ''obs_connect''), (''port'', JStr ''abc'')]),
        Json (JObj [(''type'', JStr ''voice_start'')])]
     = (new_session None, [], Crashed ValueError)"
  by (simp add: websocket_step_def handle_object_def dict_get_def int_eval)

text \<open>
  Claim C3, amended. A decoded JSON object whose \<^verbatim>\<open>type\<close> is missing or is none of message,
  obs_connect, voice_start and voice_stop, and a message object whose content is missing or
  empty, cause no action: nothing is sent, the session is unchanged and the loop keeps
  receiving. A text that is not well-formed JSON, a JSON value that is not an object, and an
  obs_connect object whose port \<^verbatim>\<open>int\<close> rejects raise an exception the loop does not catch:
  nothing is sent and \<^verbatim>\<open>websocket_chat\<close> ends without handling any later event. An
  obs_connect object whose port \<^verbatim>\<open>int\<close> accepts goes to the connector and is answered with
  obs_status.
\<close>

theorem malformed_inbound:
  "(dict_get d ''type'' (JStr '''') \<noteq> JStr ''message'' \<and>
    dict_get d ''type'' (JStr '''') \<noteq> JStr ''obs_connect'' \<and>
    dict_get d ''type'' (JStr '''') \<noteq> JStr ''voice_start'' \<and>
    dict_get d ''type'' (JStr '''') \<noteq> JStr ''voice_stop''
    \<longrightarrow> websocket_step agent_run connect_obs s (Json (JObj d)) = (s, [], Receiving)) \<and>
   (dict_get d ''type'' (JStr '''') = JStr ''message'' \<and>
    \<not> truthy (dict_get d ''content'' (JStr ''''))
    \<longrightarrow> websocket_step agent_run connect_obs s (Json (JObj d)) = (s, [], Receiving)) \<and>
   chat_loop agent_run connect_obs s (NotJson raw # evs) = (s, [], Crashed JSONDecodeError) \<and>
   ((\<forall>kvs. v \<noteq> JObj kvs)
    \<longrightarrow> chat_loop agent_run connect_obs s (Json v # evs) = (s, [], Crashed AttributeError)) \<and>
   (dict_get d ''type'' (JStr '''') = JStr ''obs_connect'' \<and>
    py_int (dict_get d ''port'' (JInt 4455)) = Inl e
    \<longrightarrow> chat_loop agent_run connect_obs s (Json (JObj d) # evs) = (s, [], Crashed e)) \<and>
   (\<forall>port. dict_get d ''type'' (JStr '''') = JStr ''obs_connect'' \<and>
      py_int (dict_get d ''port'' (JInt 4455)) = Inr port
      \<longrightarrow> websocket_step agent_run connect_obs s (Json (JObj d)) =
            (s\<lparr>obs_client := fst (connect_obs port (dict_get d ''password'' (JStr '''')))\<rparr>,
             [ObsStatus (fst (connect_obs port (dict_get d ''password'' (JStr ''''))) \<noteq> None)
                (snd (connect_obs port (dict_get d ''password'' (JStr ''''))))],
             Receiving))"
proof (intro conjI impI allI)
  assume "dict_get d ''type'' (JStr '''') \<noteq> JStr ''message'' \<and>
    dict_get d ''type'' (JStr '''') \<noteq> JStr ''obs_connect'' \<and>
    dict_get d ''type'' (JStr '''') \<noteq> JStr ''voice_start'' \<and>
    dict_get d ''type'' (JStr '''') \<noteq> JStr ''voice_stop''"
  then show "websocket_step agent_run connect_obs s (Json (JObj d)) = (s, [], Receiving)"
    by (simp add: websocket_step_def handle_object_def)
next
  assume "dict_get d ''type'' (JStr '''') = JStr ''message'' \<and>
    \<not> truthy (dict_get d ''content'' (JStr ''''))"
  then show "websocket_step agent_run connect_obs s (Json (JObj d)) = (s, [], Receiving)"
    by (simp add: websocket_step_def handle_object_def)
next
  show "chat_loop agent_run connect_obs s (NotJson raw # evs) = (s, [], Crashed JSONDecodeError)"
    by (simp add: websocket_step_def)
next
  assume "\<forall>kvs. v \<noteq> JObj kvs"
  then have "websocket_step agent_run connect_obs s (Json v) = (s, [], Crashed AttributeError)"
    by (cases v) (simp_all add: websocket_step_def)
  then show "chat_loop agent_run connect_obs s (Json v # evs) = (s, [], Crashed AttributeError)"
    by (rule chat_loop_stops) simp
next
  assume "dict_get d ''type'' (JStr '''') = JStr ''obs_connect'' \<and>
    py_int (dict_get d ''port'' (JInt 4455)) = Inl e"
  then have "websocket_step agent_run connect_obs s (Json (JObj d)) = (s, [], Crashed e)"
    by (simp add: websocket_step_def handle_object_def)
  then show "chat_loop agent_run connect_obs s (Json (JObj d) # evs) = (s, [], Crashed e)"
    by (rule chat_loop_stops) simp
next
  fix port
  assume "dict_get d ''type'' (JStr '''') = JStr ''obs_connect'' \<and>
      py_int (dict_get d ''port'' (JInt 4455)) = Inr port"
  then show "websocket_step agent_run connect_obs s (Json (JObj d)) =
            (s\<lparr>obs_client := fst (connect_obs port (dict_get d ''password'' (JStr '''')))\<rparr>,
             [ObsStatus (fst (connect_obs port (dict_get d ''password'' (JStr ''''))) \<noteq> None)
                (snd (connect_obs port (dict_get d ''password'' (JStr ''''))))],
             Receiving)"
    by (simp add: websocket_step_def handle_object_def case_prod_beta Let_def)
qed

theorem malformed_inbound_witness:
  "websocket_step (\<lambda>m n. Cancelled) (\<lambda>p w. (None, ''refused'')) (new_session None)
       (Json (JObj [(''type'', JStr ''reboot'')])) = (new_session None, [], Receiving) \<and>
   websocket_step (\<lambda>m n. Cancelled) (\<lambda>p w. (None, ''refused'')) (new_session None)
       (Json (JObj [(''content'', JStr ''hide webcam'')])) = (new_session None, [], Receiving) \<and>
   websocket_step (\<lambda>m n. Cancelled) (\<lambda>p w. (None, ''refused'')) (new_session None)
       (Json (JObj [(''type'', JStr ''message'')])) = (new_session None, [], Receiving) \<and>
   chat_loop (\<lambda>m n. Cancelled) (\<lambda>p w. (None, ''refused'')) (new_session None)
       [Json (JArr [JInt 1]), Json (JObj [(''type'', JStr ''voice_start'')])]
     = (new_session None, [], Crashed AttributeError) \<and>
   chat_loop (\<lambda>m n. Cancelled) (\<lambda>p w. (None, ''refused'')) (new_session None)
       [Json (JObj [(''type'', JStr ''obs_connect''), (''port'', JNull)])]
     = (new_session None, [], Crashed TypeError) \<and>
   py_int (JStr [CHR 0x1C, CHR ''4'', CHR ''2'']) = Inl ValueError \<and>
   chat_loop (\<lambda>m n. Cancelled) (\<lambda>p w. (None, ''refused'')) (new_session None)
       [Json (JObj [(''type'', JStr ''obs_connect''),
                    (''port'', JStr [CHR 0x1C, CHR ''4'', CHR ''2''])])]
     = (new_session None, [], Crashed ValueError) \<and>
   py_int (JStr '' 4455 '') = Inr 4455 \<and>
   websocket_step (\<lambda>m n. Cancelled) (\<lambda>p w. (None, ''refused'')) (new_session None)
       (Json (JObj [(''type'', JStr ''obs_connect''), (''port'', JStr '' 4455 '')]))
     = (new_session None, [ObsStatus False ''refused''], Receiving)"
proof -
  note inst = malformed_inbound [where agent_run = "\<lambda>m n. Cancelled"
          and connect_obs = "\<lambda>p w. (None, ''refused'')" and s = "new_session None" and raw = "[]"]
  have 1: "websocket_step (\<lambda>m n. Cancelled) (\<lambda>p w. (None, ''refused'')) (new_session None)
       (Json (JObj [(''type'', JStr ''reboot'')])) = (new_session None, [], Receiving)"
    by (rule inst [where d = "[(''type'', JStr ''reboot'')]", THEN conjunct1, THEN mp])
       (simp add: dict_get_def)
  have 2: "websocket_step (\<lambda>m n. Cancelled) (\<lambda>p w. (None, ''refused'')) (new_session None)
       (Json (JObj [(''content'', JStr ''hide webcam'')])) = (new_session None, [], Receiving)"
    by (rule inst [where d = "[(''content'', JStr ''hide webcam'')]", THEN conjunct1, THEN mp])
       (simp add: dict_get_def)
  have 3: "websocket_step (\<lambda>m n. Cancelled) (\<lambda>p w. (None, ''refused'')) (new_session None)
       (Json (JObj [(''type'', JStr ''message'')])) = (new_session None, [], Receiving)"
    by (rule inst [where d = "[(''type'', JStr ''message'')]", THEN conjunct2, THEN conjunct1,
          THEN mp]) (simp add: dict_get_def)
  have 4: "chat_loop (\<lambda>m n. Cancelled) (\<lambda>p w. (None, ''refused'')) (new_session None)
       [Json (JArr [JInt 1]), Json (JObj [(''type'', JStr ''voice_start'')])]
     = (new_session None, [], Crashed AttributeError)"
    by (rule inst [where v = "JArr [JInt 1]", THEN conjunct2, THEN conjunct2, THEN conjunct2,
          THEN conjunct1, THEN mp]) simp
  have 5: "chat_loop (\<lambda>m n. Cancelled) (\<lambda>p w. (None, ''refused'')) (new_session None)
       [Json (JObj [(''type'', JStr ''obs_connect''), (''port'', JNull)])]
     = (new_session None, [], Crashed TypeError)"
    by (rule inst [where d = "[(''type'', JStr ''obs_connect''), (''port'', JNull)]",
          THEN conjunct2, THEN conjunct2, THEN conjunct2, THEN conjunct2, THEN conjunct1, THEN mp])
       (simp add: dict_get_def)
  have 6: "py_int (JStr [CHR 0x1C, CHR ''4'', CHR ''2'']) = Inl ValueError"
    by (simp add: int_eval)
  have 7: "chat_loop (\<lambda>m n. Cancelled) (\<lambda>p w. (None, ''refused'')) (new_session None)
       [Json (JObj [(''type'', JStr ''obs_connect''),
                    (''port'', JStr [CHR 0x1C, CHR ''4'', CHR ''2''])])]
     = (new_session None, [], Crashed ValueError)"
    by (rule inst [where d = "[(''type'', JStr ''obs_connect''),
                    (''port'', JStr [CHR 0x1C, CHR ''4'', CHR ''2''])]",
          THEN conjunct2, THEN conjunct2, THEN conjunct2, THEN conjunct2, THEN conjunct1, THEN mp])
       (simp add: dict_get_def int_eval)
  have 8: "py_int (JStr '' 4455 '') = Inr 4455"
    by (simp add: int_eval)
  have "websocket_step (\<lambda>m n. Cancelled) (\<lambda>p w. (None, ''refused'')) (new_session None)
       (Json (JObj [(''type'', JStr ''obs_connect''), (''port'', JStr '' 4455 '')]))
     = ((new_session None)\<lparr>obs_client := fst (None :: ReqClient option, ''refused'')\<rparr>,
        [ObsStatus (fst (None :: ReqClient option, ''refused'') \<noteq> None)
           (snd (None :: ReqClient option, ''refused''))], Receiving)"
    by (rule inst [where d = "[(''type'', JStr ''obs_connect''), (''port'', JStr '' 4455 '')]",
          THEN conjunct2, THEN conjunct2, THEN conjunct2, THEN conjunct2, THEN conjunct2,
          THEN spec, THEN mp])
       (simp add: dict_get_def int_eval)
  then have 9: "websocket_step (\<lambda>m n. Cancelled) (\<lambda>p w. (None, ''refused'')) (new_session None)
       (Json (JObj [(''type'', JStr ''obs_connect''), (''port'', JStr '' 4455 '')]))
     = (new_session None, [ObsStatus False ''refused''], Receiving)"
    by (simp add: new_session_def)
  show ?thesis
    by (intro conjI) (rule 1 2 3 4 5 6 7 8 9)+
qed

section \<open>Facts about the wake word\<close>

lemmas wake_eval = wake_extract_def strip_def py_isspace_def match_here_def word_boundary_def
  is_word_def is_sep_def seps_group_def dot_plus_def newline_def

lemma is_sep_newline: "is_sep newline"
  by (simp add: is_sep_def py_isspace_def newline_def)

lemma dot_plus_Some: "dot_plus s = Some g \<longleftrightarrow> g = takeWhile (\<lambda>c. c \<noteq> newline) s \<and> g \<noteq> []"
  by (auto simp add: dot_plus_def Let_def)

lemma dot_plus_None: "dot_plus s = None \<longleftrightarrow> (s = [] \<or> hd s = newline)"
  by (cases s) (auto simp add: dot_plus_def Let_def)

lemma try_seps_Some:
  "try_seps n r = Some g \<Longrightarrow> \<exists>k. 0 < k \<and> k \<le> n \<and> dot_plus (drop k r) = Some g"
proof (induction n)
  case 0
  then show ?case by simp
next
  case (Suc n)
  show ?case
  proof (cases "dot_plus (drop (Suc n) r)")
    case None
    with Suc.prems have "try_seps n r = Some g" by simp
    with Suc.IH obtain k where "0 < k" "k \<le> n" "dot_plus (drop k r) = Some g" by blast
    then show ?thesis by (intro exI [of _ k]) simp
  next
    case (Some g')
    with Suc.prems have "g' = g" by simp
    with Some show ?thesis by (intro exI [of _ "Suc n"]) simp
  qed
qed

lemma try_seps_exists:
  "0 < k \<Longrightarrow> k \<le> n \<Longrightarrow> dot_plus (drop k r) \<noteq> None \<Longrightarrow> try_seps n r \<noteq> None"
proof (induction n)
  case 0
  then show ?case by simp
next
  case (Suc n)
  show ?case
  proof (cases "k = Suc n")
    case True
    with Suc.prems show ?thesis by (auto split: option.splits)
  next
    case False
    with Suc.prems have "k \<le> n" by simp
    with Suc have "try_seps n r \<noteq> None" by blast
    then show ?thesis by (auto split: option.splits)
  qed
qed

lemma takeWhile_seps_length:
  "list_all is_sep seps \<Longrightarrow> length seps \<le> length (takeWhile is_sep (seps @ r))"
  by (induction seps) simp_all

lemma seps_group_Some:
  assumes "seps_group r = Some g"
  shows "\<exists>seps rest. r = seps @ g @ rest \<and> seps \<noteq> [] \<and> list_all is_sep seps \<and>
           g \<noteq> [] \<and> newline \<notin> set g \<and> (rest = [] \<or> hd rest = newline)"
proof -
  from assms obtain k where k: "0 < k" "k \<le> length (takeWhile is_sep r)"
    "dot_plus (drop k r) = Some g"
    unfolding seps_group_def using try_seps_Some by blast
  let ?seps = "take k r"
  let ?rest = "dropWhile (\<lambda>c. c \<noteq> newline) (drop k r)"
  have g: "g = takeWhile (\<lambda>c. c \<noteq> newline) (drop k r)" "g \<noteq> []"
    using k(3) by (auto simp add: dot_plus_Some)
  have "take k r = take k (takeWhile is_sep r)"
    using k(2) by (metis append_eq_conv_conj takeWhile_dropWhile_id take_all take_append
        diff_is_0_eq take_0 append_Nil2)
  then have "set (take k r) \<subseteq> set (takeWhile is_sep r)"
    by (metis set_take_subset)
  then have sep: "list_all is_sep ?seps"
    by (auto simp add: list_all_iff dest: set_takeWhileD)
  have len: "k \<le> length r"
    using k(2) length_takeWhile_le [of is_sep r] by simp
  have ne: "?seps \<noteq> []" using k(1) len g(2) by (cases r) auto
  have split: "r = ?seps @ g @ ?rest"
    by (simp add: g(1))
  have nl: "newline \<notin> set g"
    unfolding g(1) by (auto dest: set_takeWhileD)
  have rest: "?rest = [] \<or> hd ?rest = newline"
    using hd_dropWhile [of "\<lambda>c. c \<noteq> newline" "drop k r"] by auto
  from split ne sep g(2) nl rest show ?thesis by blast
qed

lemma seps_group_exists:
  assumes "seps \<noteq> []" and "list_all is_sep seps" and "c \<noteq> newline"
  shows "seps_group (seps @ c # rest) \<noteq> None"
proof -
  have "dot_plus (drop (length seps) (seps @ c # rest)) \<noteq> None"
    using assms(3) by (simp add: dot_plus_None)
  moreover have "0 < length seps" using assms(1) by simp
  moreover have "length seps \<le> length (takeWhile is_sep (seps @ c # rest))"
    using assms(2) by (rule takeWhile_seps_length)
  ultimately show ?thesis
    unfolding seps_group_def by (rule try_seps_exists [rotated 2])
qed

lemma seps_group_maximal:
  assumes "seps \<noteq> []" and "list_all is_sep seps" and "rem \<noteq> []" and "\<not> is_sep (hd rem)"
  shows "seps_group (seps @ rem) = Some (takeWhile (\<lambda>c. c \<noteq> newline) rem)"
proof -
  obtain c rest where rem: "rem = c # rest" using assms(3) by (cases rem) auto
  have cn: "c \<noteq> newline" using assms(4) rem is_sep_newline by auto
  have "takeWhile is_sep (seps @ rem) = seps"
    using assms(2,4) rem by (induction seps) simp_all
  then have n: "length (takeWhile is_sep (seps @ rem)) = length seps" by simp
  obtain k where k: "length seps = Suc k" using assms(1) by (cases seps) auto
  have "dot_plus (drop (Suc k) (seps @ rem)) = Some (takeWhile (\<lambda>c. c \<noteq> newline) rem)"
    using k rem cn by (simp add: dot_plus_Some)
  then show ?thesis
    unfolding seps_group_def n k by simp
qed

lemma match_obs_split: "match_obs s = Some r \<Longrightarrow> \<exists>w. s = w @ r \<and> match_obs w = Some []"
proof (cases s rule: match_obs.cases)
  case (1 c1 c2 c3 rest)
  assume "match_obs s = Some r"
  with 1 have "s = [c1, c2, c3] @ r \<and> match_obs [c1, c2, c3] = Some []"
    by (auto split: if_splits)
  then show ?thesis by blast
qed auto

lemma match_obs_word:
  assumes "match_obs w = Some []"
  shows "match_obs (w @ r) = Some r \<and> w \<noteq> [] \<and> is_word (hd w)"
proof (cases w rule: match_obs.cases)
  case (1 c1 c2 c3 rest)
  with assms show ?thesis
    by (auto simp add: is_word_def split: if_splits)
qed (use assms in auto)

lemma word_boundary_append: "w \<noteq> [] \<Longrightarrow> word_boundary prev (w @ r) = word_boundary prev w"
  by (cases w) (simp_all add: word_boundary_def)

lemma match_here_Some:
  assumes "match_here prev s = Some g"
  shows "\<exists>w seps rest. s = w @ seps @ g @ rest \<and> match_obs w = Some [] \<and>
           word_boundary prev w \<and> seps \<noteq> [] \<and> list_all is_sep seps \<and>
           g \<noteq> [] \<and> newline \<notin> set g \<and> (rest = [] \<or> hd rest = newline)"
proof -
  from assms have wb: "word_boundary prev s"
    by (simp add: match_here_def split: if_splits)
  with assms obtain r where r: "match_obs s = Some r" "seps_group r = Some g"
    by (auto simp add: match_here_def split: option.splits)
  from match_obs_split [OF r(1)] obtain w where w: "s = w @ r" "match_obs w = Some []"
    by blast
  then have "w \<noteq> []" using match_obs_word by blast
  with wb w(1) have wbw: "word_boundary prev w" by (simp add: word_boundary_append)
  from seps_group_Some [OF r(2)] obtain seps rest where
    "r = seps @ g @ rest" "seps \<noteq> []" "list_all is_sep seps" "g \<noteq> []" "newline \<notin> set g"
    "rest = [] \<or> hd rest = newline"
    by blast
  with w wbw show ?thesis by blast
qed

lemma match_here_exists:
  assumes "match_obs w = Some []" and "word_boundary prev w"
    and "seps \<noteq> []" and "list_all is_sep seps" and "c \<noteq> newline"
  shows "match_here prev (w @ seps @ c # rest) \<noteq> None"
proof -
  from match_obs_word [OF assms(1)] have m: "match_obs (w @ seps @ c # rest) = Some (seps @ c # rest)"
    and ne: "w \<noteq> []"
    by blast+
  have "word_boundary prev (w @ seps @ c # rest)"
    using assms(2) ne by (simp add: word_boundary_append)
  then show ?thesis
    using m seps_group_exists [OF assms(3,4,5)] by (simp add: match_here_def)
qed

lemma wake_search_Some:
  "wake_search prev s = Some g \<Longrightarrow>
     \<exists>pre w seps rest. s = pre @ w @ seps @ g @ rest \<and> match_obs w = Some [] \<and>
        word_boundary (if pre = [] then prev else Some (last pre)) w \<and>
        seps \<noteq> [] \<and> list_all is_sep seps \<and>
        g \<noteq> [] \<and> newline \<notin> set g \<and> (rest = [] \<or> hd rest = newline)"
proof (induction s arbitrary: prev)
  case Nil
  then show ?case by simp
next
  case (Cons x xs)
  show ?case
  proof (cases "match_here prev (x # xs)")
    case (Some g')
    with Cons.prems have "g' = g" by simp
    with Some match_here_Some [of prev "x # xs" g] obtain w seps rest where
      f: "x # xs = w @ seps @ g @ rest" "match_obs w = Some []" "word_boundary prev w"
      "seps \<noteq> []" "list_all is_sep seps" "g \<noteq> []" "newline \<notin> set g"
      "rest = [] \<or> hd rest = newline"
      by auto
    show ?thesis
      by (rule exI [where x = "[]"], rule exI [where x = w], rule exI [where x = seps],
          rule exI [where x = rest]) (use f in simp)
  next
    case None
    with Cons.prems have "wake_search (Some x) xs = Some g" by simp
    from Cons.IH [OF this] obtain pre w seps rest where
      p: "xs = pre @ w @ seps @ g @ rest" "match_obs w = Some []"
      "word_boundary (if pre = [] then Some x else Some (last pre)) w"
      "seps \<noteq> []" "list_all is_sep seps" "g \<noteq> []" "newline \<notin> set g"
      "rest = [] \<or> hd rest = newline"
      by blast
    have "x # xs = (x # pre) @ w @ seps @ g @ rest" using p(1) by simp
    moreover have "word_boundary (if x # pre = [] then prev else Some (last (x # pre))) w"
      using p(3) by (cases "pre = []") simp_all
    ultimately show ?thesis using p(2,4-8) by blast
  qed
qed

lemma wake_search_exists:
  assumes "match_obs w = Some []"
    and "word_boundary (if pre = [] then prev else Some (last pre)) w"
    and "seps \<noteq> []" and "list_all is_sep seps" and "c \<noteq> newline"
  shows "wake_search prev (pre @ w @ seps @ c # rest) \<noteq> None"
  using assms(2)
proof (induction pre arbitrary: prev)
  case Nil
  then have "match_here prev (w @ seps @ c # rest) \<noteq> None"
    using match_here_exists [OF assms(1) _ assms(3,4,5)] by simp
  moreover from match_obs_word [OF assms(1)] obtain y ys where "w = y # ys"
    by (cases w) auto
  ultimately show ?case by (auto split: option.splits)
next
  case (Cons x pre)
  then have "word_boundary (if pre = [] then Some x else Some (last pre)) w"
    by (cases "pre = []") simp_all
  then have "wake_search (Some x) (pre @ w @ seps @ c # rest) \<noteq> None"
    by (rule Cons.IH)
  then show ?case by (auto split: option.splits)
qed

lemma wake_search_iff:
  "wake_search prev s \<noteq> None \<longleftrightarrow> (\<exists>pre w seps c rest. wake_occurrence prev s pre w seps c rest)"
proof
  assume "wake_search prev s \<noteq> None"
  then obtain g where "wake_search prev s = Some g" by auto
  from wake_search_Some [OF this] obtain pre w seps rest where
    p: "s = pre @ w @ seps @ g @ rest" "match_obs w = Some []"
      "word_boundary (if pre = [] then prev else Some (last pre)) w"
      "seps \<noteq> []" "list_all is_sep seps" "g \<noteq> []" "newline \<notin> set g"
    by blast
  from p(6) obtain c g' where g: "g = c # g'" by (cases g) auto
  with p(7) have "c \<noteq> newline" by auto
  with p g have "wake_occurrence prev s pre w seps c (g' @ rest)"
    by (simp add: wake_occurrence_def)
  then show "\<exists>pre w seps c rest. wake_occurrence prev s pre w seps c rest" by blast
next
  assume "\<exists>pre w seps c rest. wake_occurrence prev s pre w seps c rest"
  then obtain pre w seps c rest where "wake_occurrence prev s pre w seps c rest" by blast
  then show "wake_search prev s \<noteq> None"
    using wake_search_exists [of w pre prev seps c rest] by (simp add: wake_occurrence_def)
qed

lemma wake_search_at_start:
  assumes "match_obs w = Some []" and "seps \<noteq> []" and "list_all is_sep seps"
    and "rem \<noteq> []" and "\<not> is_sep (hd rem)"
  shows "wake_search None (w @ seps @ rem) = Some (takeWhile (\<lambda>c. c \<noteq> newline) rem)"
proof -
  from match_obs_word [OF assms(1)] have m: "match_obs (w @ seps @ rem) = Some (seps @ rem)"
    and ne: "w \<noteq> []" and wd: "is_word (hd w)"
    by blast+
  then obtain y ys where w: "w = y # ys" by (cases w) auto
  have "word_boundary None (w @ seps @ rem)"
    using wd w by (simp add: word_boundary_def)
  then have "match_here None (w @ seps @ rem) = Some (takeWhile (\<lambda>c. c \<noteq> newline) rem)"
    using m seps_group_maximal [OF assms(2,3,4,5)] by (simp add: match_here_def)
  then show ?thesis using w by simp
qed

lemma try_seps_last:
  "try_seps n r = Some g \<Longrightarrow>
     \<exists>k. 0 < k \<and> k \<le> n \<and> dot_plus (drop k r) = Some g \<and>
         (\<forall>j. k < j \<and> j \<le> n \<longrightarrow> dot_plus (drop j r) = None)"
proof (induction n)
  case 0
  then show ?case by simp
next
  case (Suc n)
  show ?case
  proof (cases "dot_plus (drop (Suc n) r)")
    case None
    with Suc.prems have "try_seps n r = Some g" by simp
    with Suc.IH obtain k where k: "0 < k" "k \<le> n" "dot_plus (drop k r) = Some g"
      "\<forall>j. k < j \<and> j \<le> n \<longrightarrow> dot_plus (drop j r) = None"
      by blast
    have "\<forall>j. k < j \<and> j \<le> Suc n \<longrightarrow> dot_plus (drop j r) = None"
      using k(4) None by (auto simp add: le_Suc_eq)
    with k(1,2,3) have "0 < k \<and> k \<le> Suc n \<and> dot_plus (drop k r) = Some g \<and>
        (\<forall>j. k < j \<and> j \<le> Suc n \<longrightarrow> dot_plus (drop j r) = None)"
      by simp
    then show ?thesis by (rule exI [where x = k])
  next
    case (Some g')
    with Suc.prems have "g' = g" by simp
    with Some have "0 < Suc n \<and> Suc n \<le> Suc n \<and> dot_plus (drop (Suc n) r) = Some g \<and>
        (\<forall>j. Suc n < j \<and> j \<le> Suc n \<longrightarrow> dot_plus (drop j r) = None)"
      by auto
    then show ?thesis by (rule exI [where x = "Suc n"])
  qed
qed

lemma take_takeWhile_all:
  "k \<le> length (takeWhile P r) \<Longrightarrow> list_all P (take k r)"
proof (induction r arbitrary: k)
  case Nil
  then show ?case by simp
next
  case (Cons x xs)
  then show ?case by (cases k) (auto split: if_splits)
qed

lemma takeWhile_line:
  "newline \<notin> set g \<Longrightarrow> rest = [] \<or> hd rest = newline \<Longrightarrow>
     takeWhile (\<lambda>c. c \<noteq> newline) (g @ rest) = g"
proof (induction g)
  case Nil
  then show ?case by (cases rest) auto
next
  case (Cons x xs)
  then show ?case by auto
qed

lemma seps_group_longest:
  assumes "seps_group r = Some g"
  shows "\<exists>seps rest. r = seps @ g @ rest \<and> seps \<noteq> [] \<and> list_all is_sep seps \<and>
           g \<noteq> [] \<and> newline \<notin> set g \<and> (rest = [] \<or> hd rest = newline) \<and>
           (\<forall>seps' c' rest'. r = seps' @ c' # rest' \<and> list_all is_sep seps' \<and> c' \<noteq> newline
              \<longrightarrow> length seps' \<le> length seps)"
proof -
  let ?n = "length (takeWhile is_sep r)"
  from assms have "try_seps ?n r = Some g" by (simp add: seps_group_def)
  from try_seps_last [OF this] obtain k where k: "0 < k" "k \<le> ?n"
    "dot_plus (drop k r) = Some g"
    "\<forall>j. k < j \<and> j \<le> ?n \<longrightarrow> dot_plus (drop j r) = None"
    by (elim exE conjE)
  let ?seps = "take k r"
  let ?rest = "dropWhile (\<lambda>c. c \<noteq> newline) (drop k r)"
  have g: "g = takeWhile (\<lambda>c. c \<noteq> newline) (drop k r)" "g \<noteq> []"
    using k(3) by (auto simp add: dot_plus_Some)
  have sep: "list_all is_sep ?seps"
    using k(2) by (rule take_takeWhile_all)
  have len: "k \<le> length r"
    using k(2) length_takeWhile_le [of is_sep r] by simp
  then have lk: "length ?seps = k" by simp
  have ne: "?seps \<noteq> []" using k(1) lk by auto
  have split: "r = ?seps @ g @ ?rest"
    by (simp add: g(1))
  have nl: "newline \<notin> set g"
    unfolding g(1) by (auto dest: set_takeWhileD)
  have rest: "?rest = [] \<or> hd ?rest = newline"
    using hd_dropWhile [of "\<lambda>c. c \<noteq> newline" "drop k r"] by auto
  have longest: "\<forall>seps' c' rest'. r = seps' @ c' # rest' \<and> list_all is_sep seps' \<and> c' \<noteq> newline
              \<longrightarrow> length seps' \<le> length ?seps"
  proof (intro allI impI)
    fix seps' c' rest'
    assume a: "r = seps' @ c' # rest' \<and> list_all is_sep seps' \<and> c' \<noteq> newline"
    then have j: "length seps' \<le> ?n"
      using takeWhile_seps_length [of seps' "c' # rest'"] by simp
    have "dot_plus (drop (length seps') r) \<noteq> None"
      using a by (simp add: dot_plus_None)
    with k(4) [rule_format, of "length seps'"] j have "\<not> k < length seps'" by auto
    then show "length seps' \<le> length ?seps" using lk by simp
  qed
  show ?thesis
    by (rule exI [where x = ?seps], rule exI [where x = ?rest])
       (rule conjI split ne sep g(2) nl rest longest)+
qed

lemma match_obs_length: "match_obs w = Some [] \<Longrightarrow> length w = 3"
  by (cases w rule: match_obs.cases) (auto split: if_splits)

lemma match_here_longest:
  assumes "match_here prev s = Some g"
  shows "\<exists>w seps rest. s = w @ seps @ g @ rest \<and> match_obs w = Some [] \<and>
           word_boundary prev w \<and> seps \<noteq> [] \<and> list_all is_sep seps \<and>
           g \<noteq> [] \<and> newline \<notin> set g \<and> (rest = [] \<or> hd rest = newline) \<and>
           (\<forall>seps' c' rest'.
              seps @ g @ rest = seps' @ c' # rest' \<and> list_all is_sep seps' \<and> c' \<noteq> newline
              \<longrightarrow> length seps' \<le> length seps)"
proof -
  from assms have wb: "word_boundary prev s"
    by (simp add: match_here_def split: if_splits)
  with assms obtain r where r: "match_obs s = Some r" "seps_group r = Some g"
    by (auto simp add: match_here_def split: option.splits)
  from match_obs_split [OF r(1)] obtain w where w: "s = w @ r" "match_obs w = Some []"
    by blast
  then have "w \<noteq> []" using match_obs_word by blast
  with wb w(1) have wbw: "word_boundary prev w" by (simp add: word_boundary_append)
  from seps_group_longest [OF r(2)] obtain seps rest where sr:
    "r = seps @ g @ rest" "seps \<noteq> []" "list_all is_sep seps" "g \<noteq> []" "newline \<notin> set g"
    "rest = [] \<or> hd rest = newline"
    "\<forall>seps' c' rest'. r = seps' @ c' # rest' \<and> list_all is_sep seps' \<and> c' \<noteq> newline
              \<longrightarrow> length seps' \<le> length seps"
    by (elim exE conjE)
  have s: "s = w @ seps @ g @ rest" using w(1) sr(1) by simp
  have longest: "\<forall>seps' c' rest'.
              seps @ g @ rest = seps' @ c' # rest' \<and> list_all is_sep seps' \<and> c' \<noteq> newline
              \<longrightarrow> length seps' \<le> length seps"
    using sr(7) unfolding sr(1) .
  show ?thesis
    by (rule exI [where x = w], rule exI [where x = seps], rule exI [where x = rest])
       (rule conjI s w(2) wbw sr(2) sr(3) sr(4) sr(5) sr(6) longest)+
qed

lemma occurrence_Nil:
  "wake_occurrence prev s [] w seps c rest \<Longrightarrow> match_here prev s \<noteq> None"
  using match_here_exists [of w prev seps c rest] by (simp add: wake_occurrence_def)

lemma occurrence_Cons:
  "wake_occurrence prev (x # xs) (y # pre) w seps c rest \<Longrightarrow>
     wake_occurrence (Some x) xs pre w seps c rest"
  by (cases "pre = []") (auto simp add: wake_occurrence_def)

lemma wake_search_match:
  "wake_search prev s = Some g \<Longrightarrow> \<exists>pre w seps rest. wake_match prev s pre w seps g rest"
proof (induction s arbitrary: prev)
  case Nil
  then show ?case by simp
next
  case (Cons x xs)
  show ?case
  proof (cases "match_here prev (x # xs)")
    case (Some g')
    with Cons.prems have "match_here prev (x # xs) = Some g" by simp
    from match_here_longest [OF this] obtain w seps rest where
      f: "x # xs = w @ seps @ g @ rest" "match_obs w = Some []" "word_boundary prev w"
      "seps \<noteq> []" "list_all is_sep seps" "g \<noteq> []" "newline \<notin> set g"
      "rest = [] \<or> hd rest = newline"
      "\<forall>seps' c' rest'.
              seps @ g @ rest = seps' @ c' # rest' \<and> list_all is_sep seps' \<and> c' \<noteq> newline
              \<longrightarrow> length seps' \<le> length seps"
      by (elim exE conjE)
    have "wake_match prev (x # xs) [] w seps g rest"
      unfolding wake_match_def using f by simp
    then show ?thesis by blast
  next
    case None
    with Cons.prems have "wake_search (Some x) xs = Some g" by simp
    from Cons.IH [OF this] obtain pre w seps rest where
      m: "wake_match (Some x) xs pre w seps g rest"
      by blast
    have left: "\<forall>pre' w' seps' c' rest'.
        wake_occurrence prev (x # xs) pre' w' seps' c' rest' \<longrightarrow> length (x # pre) \<le> length pre'"
    proof (intro allI impI)
      fix pre' w' seps' c' rest'
      assume occ: "wake_occurrence prev (x # xs) pre' w' seps' c' rest'"
      show "length (x # pre) \<le> length pre'"
      proof (cases pre')
        case Nil
        with occ None occurrence_Nil show ?thesis by blast
      next
        case (Cons y p)
        with occ have "wake_occurrence (Some x) xs p w' seps' c' rest'"
          using occurrence_Cons by blast
        with m have "length pre \<le> length p"
          unfolding wake_match_def by blast
        with Cons show ?thesis by simp
      qed
    qed
    have wb: "word_boundary (if x # pre = [] then prev else Some (last (x # pre))) w"
      using m unfolding wake_match_def by (cases "pre = []") simp_all
    have "wake_match prev (x # xs) (x # pre) w seps g rest"
      unfolding wake_match_def
      using m left wb unfolding wake_match_def by simp
    then show ?thesis by blast
  qed
qed

lemma wake_match_occurrence:
  "wake_match prev s pre w seps g rest \<Longrightarrow>
     wake_occurrence prev s pre w seps (hd g) (tl g @ rest)"
  by (cases g) (auto simp add: wake_match_def wake_occurrence_def)

lemma wake_match_unique:
  assumes a: "wake_match prev s pre w seps g rest"
    and b: "wake_match prev s pre0 w0 seps0 g0 rest0"
  shows "g = g0"
proof -
  note oa = wake_match_occurrence [OF a] and ob = wake_match_occurrence [OF b]
  have "length pre \<le> length pre0" using a ob unfolding wake_match_def by blast
  moreover have "length pre0 \<le> length pre" using b oa unfolding wake_match_def by blast
  ultimately have lp: "length pre = length pre0" by simp
  have sa: "s = pre @ w @ seps @ g @ rest" and sb: "s = pre0 @ w0 @ seps0 @ g0 @ rest0"
    using a b by (simp_all add: wake_match_def)
  from sa sb lp have r1: "w @ seps @ g @ rest = w0 @ seps0 @ g0 @ rest0"
    by simp
  have "length w = length w0"
    using a b match_obs_length unfolding wake_match_def by simp
  with r1 have r2: "seps @ g @ rest = seps0 @ g0 @ rest0" by simp
  have g: "g \<noteq> []" "newline \<notin> set g" "rest = [] \<or> hd rest = newline" "list_all is_sep seps"
    and g0: "g0 \<noteq> []" "newline \<notin> set g0" "rest0 = [] \<or> hd rest0 = newline"
      "list_all is_sep seps0"
    using a b by (simp_all add: wake_match_def)
  have la: "\<forall>seps' c' rest'.
        seps @ g @ rest = seps' @ c' # rest' \<and> list_all is_sep seps' \<and> c' \<noteq> newline
        \<longrightarrow> length seps' \<le> length seps"
    and lb: "\<forall>seps' c' rest'.
        seps0 @ g0 @ rest0 = seps' @ c' # rest' \<and> list_all is_sep seps' \<and> c' \<noteq> newline
        \<longrightarrow> length seps' \<le> length seps0"
    using a b by (simp_all add: wake_match_def)
  obtain c t where gc: "g = c # t" using g(1) by (cases g) auto
  obtain c0 t0 where gc0: "g0 = c0 # t0" using g0(1) by (cases g0) auto
  have "seps @ g @ rest = seps0 @ c0 # (t0 @ rest0) \<and> list_all is_sep seps0 \<and> c0 \<noteq> newline"
    using r2 gc0 g0 by auto
  with la have 1: "length seps0 \<le> length seps" by blast
  have "seps0 @ g0 @ rest0 = seps @ c # (t @ rest) \<and> list_all is_sep seps \<and> c \<noteq> newline"
    using r2 gc g by auto
  with lb have 2: "length seps \<le> length seps0" by blast
  from 1 2 r2 have r3: "g @ rest = g0 @ rest0" by simp
  have "g = takeWhile (\<lambda>c. c \<noteq> newline) (g @ rest)"
    using takeWhile_line [OF g(2,3)] by simp
  also have "\<dots> = takeWhile (\<lambda>c. c \<noteq> newline) (g0 @ rest0)" by (simp only: r3)
  also have "\<dots> = g0" by (rule takeWhile_line [OF g0(2,3)])
  finally show ?thesis .
qed

lemma wake_search_match_iff:
  "wake_search prev s = Some g \<longleftrightarrow> (\<exists>pre w seps rest. wake_match prev s pre w seps g rest)"
proof
  assume "wake_search prev s = Some g"
  then show "\<exists>pre w seps rest. wake_match prev s pre w seps g rest"
    by (rule wake_search_match)
next
  assume "\<exists>pre w seps rest. wake_match prev s pre w seps g rest"
  then obtain pre w seps rest where m: "wake_match prev s pre w seps g rest" by blast
  from wake_match_occurrence [OF m] have "wake_search prev s \<noteq> None"
    using wake_search_iff by blast
  then obtain g0 where g0: "wake_search prev s = Some g0" by auto
  from wake_search_match [OF this] obtain pre0 w0 seps0 rest0 where
    "wake_match prev s pre0 w0 seps0 g0 rest0" by blast
  with m have "g = g0" by (rule wake_match_unique)
  with g0 show "wake_search prev s = Some g" by simp
qed

text \<open>
  Claim C8, as stated, fails. The text \<^verbatim>\<open>obs,\<close> contains the wake word at a word boundary
  followed by one separator, yet no command is extracted: the group \<^verbatim>\<open>(.+)\<close> needs a
  character after the separators. And the command is not the whole remainder: the dot does
  not match a newline, so a text with a second line yields only the rest of the first line.
\<close>

theorem wake_gate_counterexample:
  "match_obs ''obs'' = Some [] \<and> word_boundary None ''obs,'' \<and> is_sep (CHR '','') \<and>
   strip ''obs,'' = ''obs'' @ '','' \<and> wake_extract ''obs,'' = None \<and>
   wake_extract (''obs hide webcam'' @ [newline] @ ''and mute'') = Some ''hide webcam''"
  by (simp add: wake_eval)

text \<open>
  Claim C8, amended. A command is extracted exactly when the stripped text contains the
  letters \<^verbatim>\<open>obs\<close> (in any case) at a word boundary, followed by one or more separators
  (white space or one of \<^verbatim>\<open>, . : ! ?\<close>) and then at least one character other than a
  newline. The command is then fixed: take the leftmost such occurrence and, after its
  letters, the longest run of separators that is still followed by a character other than
  a newline; the command is the text from there to the end of that line, stripped. When the
  stripped text begins with the wake word and its separators are followed by a
  non-separator, this is the remainder up to the first newline, stripped. The three examples
  of the claim hold. With no command nothing is sent; with a command the relay sends the
  transcription message and then dispatches the command.
\<close>

theorem wake_gate:
  "(wake_extract text \<noteq> None \<longleftrightarrow>
      (\<exists>pre w seps c rest. wake_occurrence None (strip text) pre w seps c rest)) \<and>
   (\<forall>command. wake_extract text = Some command \<longleftrightarrow>
      (\<exists>pre w seps g rest.
         wake_match None (strip text) pre w seps g rest \<and> command = strip g)) \<and>
   (\<forall>w seps rem.
      strip text = w @ seps @ rem \<and> match_obs w = Some [] \<and> seps \<noteq> [] \<and>
      list_all is_sep seps \<and> rem \<noteq> [] \<and> \<not> is_sep (hd rem)
      \<longrightarrow> wake_extract text = Some (strip (takeWhile (\<lambda>c. c \<noteq> newline) rem))) \<and>
   wake_extract ''obs, hide webcam'' = Some ''hide webcam'' \<and>
   wake_extract ''OBS show scene'' = Some ''show scene'' \<and>
   wake_extract ''hide webcam'' = None \<and>
   (wake_extract text = None \<longrightarrow> handle_transcription agent_run text = []) \<and>
   (\<forall>command. wake_extract text = Some command \<longrightarrow>
      handle_transcription agent_run text =
        Transcription text # handle_agent_stream (agent_run (JStr command)))"
proof -
  have 1: "wake_extract text \<noteq> None \<longleftrightarrow>
      (\<exists>pre w seps c rest. wake_occurrence None (strip text) pre w seps c rest)"
    using wake_search_iff [of None "strip text"] by (simp add: wake_extract_def)
  have 2: "\<forall>command. wake_extract text = Some command \<longleftrightarrow>
      (\<exists>pre w seps g rest.
         wake_match None (strip text) pre w seps g rest \<and> command = strip g)"
  proof
    fix command
    have "wake_extract text = Some command \<longleftrightarrow>
        (\<exists>g. wake_search None (strip text) = Some g \<and> command = strip g)"
      by (auto simp add: wake_extract_def)
    also have "\<dots> \<longleftrightarrow> (\<exists>pre w seps g rest.
         wake_match None (strip text) pre w seps g rest \<and> command = strip g)"
      unfolding wake_search_match_iff by blast
    finally show "wake_extract text = Some command \<longleftrightarrow>
      (\<exists>pre w seps g rest.
         wake_match None (strip text) pre w seps g rest \<and> command = strip g)" .
  qed
  have 3: "\<forall>w seps rem.
      strip text = w @ seps @ rem \<and> match_obs w = Some [] \<and> seps \<noteq> [] \<and>
      list_all is_sep seps \<and> rem \<noteq> [] \<and> \<not> is_sep (hd rem)
      \<longrightarrow> wake_extract text = Some (strip (takeWhile (\<lambda>c. c \<noteq> newline) rem))"
    by (simp add: wake_extract_def wake_search_at_start)
  have 4: "wake_extract ''obs, hide webcam'' = Some ''hide webcam''"
    by (simp add: wake_eval)
  have 5: "wake_extract ''OBS show scene'' = Some ''show scene''"
    by (simp add: wake_eval)
  have 6: "wake_extract ''hide webcam'' = None"
    by (simp add: wake_eval)
  have 7: "wake_extract text = None \<longrightarrow> handle_transcription agent_run text = []"
    by (simp add: handle_transcription_def)
  have 8: "\<forall>command. wake_extract text = Some command \<longrightarrow>
      handle_transcription agent_run text =
        Transcription text # handle_agent_stream (agent_run (JStr command))"
    by (simp add: handle_transcription_def)
  from 1 2 3 4 5 6 7 8 show ?thesis by blast
qed

theorem wake_gate_witness:
  "wake_occurrence None (strip '' my obs: mute mic '') ''my '' ''obs'' '': '' (CHR ''m'') ''ute mic'' \<and>
   wake_extract '' my obs: mute mic '' \<noteq> None \<and>
   wake_extract '' my obs: mute mic '' = Some ''mute mic'' \<and>
   (\<exists>pre w seps g rest.
      wake_match None (strip '' my obs: mute mic '') pre w seps g rest \<and> ''mute mic'' = strip g) \<and>
   handle_transcription (\<lambda>m n. Cancelled) '' my obs: mute mic ''
     = [Transcription '' my obs: mute mic '', StreamStart, Error TimedOutText] \<and>
   wake_extract ''hide webcam'' = None \<and>
   handle_transcription (\<lambda>m n. Cancelled) ''hide webcam'' = [] \<and>
   wake_extract ''a obs,, x'' = Some ''x'' \<and>
   wake_extract ''hey obs mute obs unmute'' = Some ''mute obs unmute''"
proof -
  note g1 = wake_gate [of "'' my obs: mute mic ''" "\<lambda>m n. Cancelled"]
  note g2 = wake_gate [of "''hide webcam''" "\<lambda>m n. Cancelled"]
  have occ: "wake_occurrence None (strip '' my obs: mute mic '') ''my '' ''obs'' '': '' (CHR ''m'') ''ute mic''"
    by (simp add: wake_occurrence_def wake_eval)
  have ne: "wake_extract '' my obs: mute mic '' \<noteq> None"
    by (rule iffD2 [OF g1 [THEN conjunct1]]) (intro exI, rule occ)
  have a: "wake_extract '' my obs: mute mic '' = Some ''mute mic''"
    by (simp add: wake_eval)
  note m = g1 [THEN conjunct2, THEN conjunct1, THEN spec, THEN iffD1, OF a]
  note sent = g1 [THEN conjunct2, THEN conjunct2, THEN conjunct2, THEN conjunct2, THEN conjunct2,
      THEN conjunct2, THEN conjunct2, THEN spec, THEN mp, OF a]
  have h: "handle_transcription (\<lambda>m n. Cancelled) '' my obs: mute mic ''
     = [Transcription '' my obs: mute mic '', StreamStart, Error TimedOutText]"
    unfolding sent by (simp add: handle_agent_stream_cases run_agent_unfold)
  note none = g2 [THEN conjunct2, THEN conjunct2, THEN conjunct2, THEN conjunct2, THEN conjunct2,
      THEN conjunct1]
  note silent = g2 [THEN conjunct2, THEN conjunct2, THEN conjunct2, THEN conjunct2, THEN conjunct2,
      THEN conjunct2, THEN conjunct1, THEN mp, OF none]
  have x: "wake_extract ''a obs,, x'' = Some ''x''"
    by (simp add: wake_eval)
  have y: "wake_extract ''hey obs mute obs unmute'' = Some ''mute obs unmute''"
    by (simp add: wake_eval)
  show ?thesis
    by (intro conjI) (rule occ ne a m h none silent x y)+
qed


end
